theory Spec2Isabelle
  imports Main
begin

section \<open>Python values and exceptions\<close>

text \<open>
  The model follows the Python sources of nocmodel: \<^verbatim>\<open>noc_base.py\<close>,
  \<^verbatim>\<open>noc_tlm_base.py\<close>, \<^verbatim>\<open>basicmodels/basic_router.py\<close> and
  \<^verbatim>\<open>basicmodels/basic_ipcore.py\<close>.
  A call either raises a Python exception or returns a value.
\<close>

datatype exn = KeyError | ValueError | IndexError | AttributeError

datatype 'a outcome = Raise exn | Return 'a

text \<open>
  Objects of the NoC are cyclic in Python (an ipcore refers to its router and its channel,
  the channel to both endpoints). They are modelled as references into the attribute tables
  of the \<open>noc\<close> record below. A router is referred to by its node hash in the graph, which is
  also its \<open>index\<close>.
\<close>

datatype pyval =
    IntVal int
  | RouterRef int
  | IpcoreRef nat
  | ChannelRef nat
  | NoneVal
  | OtherVal

text \<open>A packet is a Python dict from field names to integers.\<close>

type_synonym packet = "(string \<times> int) list"

text \<open>\<^verbatim>\<open>xs[i]\<close> on a Python list: a negative index counts from the end.\<close>

definition py_getitem :: "'a list \<Rightarrow> int \<Rightarrow> 'a outcome" where
  "py_getitem xs i =
     (if 0 \<le> i \<and> i < int (length xs) then Return (xs ! nat i)
      else if i < 0 \<and> - int (length xs) \<le> i then Return (xs ! nat (int (length xs) + i))
      else Raise IndexError)"

text \<open>\<^verbatim>\<open>xs.index(x)\<close>: the first position of \<open>x\<close>, \<open>None\<close> where Python raises ValueError.\<close>

fun list_index :: "'a list \<Rightarrow> 'a \<Rightarrow> nat option" where
  "list_index [] x = None"
| "list_index (y # ys) x = (if y = x then Some 0 else map_option Suc (list_index ys x))"

text \<open>\<^verbatim>\<open>packet["dst"]\<close> and other dict reads of a packet.\<close>

definition packet_get :: "packet \<Rightarrow> string \<Rightarrow> int outcome" where
  "packet_get p k = (case map_of p k of None \<Rightarrow> Raise KeyError | Some v \<Rightarrow> Return v)"

section \<open>The NoC container (noc\_base.py)\<close>

text \<open>
  The graph is a NetworkX graph; the fields are what the core reads of it:
  \<open>node_list\<close> is the order of \<^verbatim>\<open>nodes_iter()\<close>, \<open>neighbors\<close> the adjacency of a node in
  iteration order, \<open>router_address\<close> the \<^verbatim>\<open>address\<close> attribute of the router object of a node,
  \<open>ipcore_router\<close> the \<^verbatim>\<open>router_ref\<close> of an ipcore and \<open>channel_endpoints\<close> the
  \<^verbatim>\<open>endpoints\<close> list of a channel.
\<close>

record noc =
  node_list :: "int list"
  neighbors :: "int \<Rightarrow> int list"
  router_address :: "int \<Rightarrow> int"
  ipcore_router :: "nat \<Rightarrow> pyval"
  channel_endpoints :: "nat \<Rightarrow> pyval list"

text \<open>\<^verbatim>\<open>router_list\<close>: the router objects of all nodes, in node order.\<close>

definition router_list :: "noc \<Rightarrow> int list" where
  "router_list G = node_list G"

text \<open>\<^verbatim>\<open>get_router_by_address\<close>: the first router with that address; \<open>None\<close> is Python's False.\<close>

definition get_router_by_address :: "noc \<Rightarrow> int \<Rightarrow> int option" where
  "get_router_by_address G a = find (\<lambda>r. router_address G r = a) (router_list G)"

section \<open>Transaction protocol (noc\_tlm\_base.py)\<close>

datatype errcode =
    no_error
  | full_fifo
  | packet_bad_data
  | tlm_badcall_recv
  | tlm_badcall_send
  | not_implemented

text \<open>The numbers of class \<^verbatim>\<open>noc_tlm_errcodes\<close>.\<close>

fun errcode_num :: "errcode \<Rightarrow> int" where
  "errcode_num no_error = 0"
| "errcode_num full_fifo = -1"
| "errcode_num packet_bad_data = -2"
| "errcode_num tlm_badcall_recv = -3"
| "errcode_num tlm_badcall_send = -4"
| "errcode_num not_implemented = -5"

text \<open>A MyHDL signal: the committed value and the pending next value.\<close>

record 'a signal =
  val :: 'a
  next_val :: 'a

section \<open>Router TLM model (basic\_router.py)\<close>

record port =
  peer :: pyval
  port_channel :: pyval
  fifo_in :: "packet list"
  fifo_out :: "packet list"
  fifo_in_event :: "bool signal"
  fifo_out_event :: "bool signal"

record basic_router_tlm =
  router_ref :: int
  fifo_len :: int
  myaddress :: int
  ports_info :: "int \<rightharpoonup> port"
  routingtable :: "int \<rightharpoonup> int list"

text \<open>
  Lines 230-248 of \<^verbatim>\<open>recv\<close>: \<open>src\<close> is converted to an address. \<open>Return None\<close> stands for
  the two branches that return \<^verbatim>\<open>tlm_badcall_recv\<close>.
\<close>

definition recv_thesrc :: "noc \<Rightarrow> basic_router_tlm \<Rightarrow> pyval \<Rightarrow> int option outcome" where
  "recv_thesrc G self src =
     (case src of
        IntVal a \<Rightarrow> Return (Some a)
      | RouterRef r \<Rightarrow> Return (Some (router_address G r))
      | ChannelRef c \<Rightarrow>
          (case list_index (channel_endpoints G c) (RouterRef (router_ref self)) of
             None \<Rightarrow> Raise ValueError
           | Some i \<Rightarrow>
               (case py_getitem (channel_endpoints G c) (int i - 1) of
                  Raise e \<Rightarrow> Raise e
                | Return (RouterRef r) \<Rightarrow> Return (Some (router_address G r))
                | Return (IpcoreRef ip) \<Rightarrow>
                    (case ipcore_router G ip of
                       RouterRef r \<Rightarrow> Return (Some (router_address G r))
                     | _ \<Rightarrow> Raise AttributeError)
                | Return _ \<Rightarrow> Return None))
      | _ \<Rightarrow> Return None)"

text \<open>Lines 250-264 of \<^verbatim>\<open>recv\<close>: the capacity check and the enqueue on port \<open>thesrc\<close>.\<close>

definition recv_enqueue :: "basic_router_tlm \<Rightarrow> int \<Rightarrow> packet \<Rightarrow> (errcode \<times> basic_router_tlm) outcome" where
  "recv_enqueue self thesrc packet =
     (case ports_info self thesrc of
        None \<Rightarrow> Raise KeyError
      | Some p \<Rightarrow>
          if int (length (fifo_in p)) = fifo_len self then Return (full_fifo, self)
          else Return (no_error,
            self\<lparr>ports_info := (ports_info self)(thesrc \<mapsto>
              p\<lparr>fifo_in := fifo_in p @ [packet],
                fifo_in_event := (fifo_in_event p)\<lparr>next_val := True\<rparr>\<rparr>)\<rparr>))"

definition recv :: "noc \<Rightarrow> basic_router_tlm \<Rightarrow> pyval \<Rightarrow> pyval \<Rightarrow> packet \<Rightarrow> (errcode \<times> basic_router_tlm) outcome" where
  "recv G self src dest packet =
     (case recv_thesrc G self src of
        Raise e \<Rightarrow> Raise e
      | Return None \<Rightarrow> Return (tlm_badcall_recv, self)
      | Return (Some thesrc) \<Rightarrow> recv_enqueue self thesrc packet)"

text \<open>
  \<^verbatim>\<open>send\<close>. The TLM model of a channel (\<^verbatim>\<open>basic_channel_tlm\<close>) is not part of these
  sources, so the \<^verbatim>\<open>recv\<close> of a channel is the parameter \<open>chan_recv\<close>: it takes the channel,
  the arguments \<open>src\<close>, \<open>dest\<close> and \<open>packet\<close>, and the state \<open>w\<close> of the rest of the simulation.
  \<^verbatim>\<open>thedest.tlm.recv(self.router_ref, thedest, packet, addattrs)\<close> is \<open>send_call\<close>.
\<close>

definition send_call ::
  "(nat \<Rightarrow> pyval \<Rightarrow> pyval \<Rightarrow> packet \<Rightarrow> 'w \<Rightarrow> (errcode \<times> 'w) outcome) \<Rightarrow>
   basic_router_tlm \<Rightarrow> pyval \<Rightarrow> packet \<Rightarrow> 'w \<Rightarrow> (errcode \<times> 'w) outcome" where
  "send_call chan_recv self thedest packet w =
     (case thedest of
        ChannelRef c \<Rightarrow> chan_recv c (RouterRef (router_ref self)) (ChannelRef c) packet w
      | _ \<Rightarrow> Raise AttributeError)"

definition send ::
  "(nat \<Rightarrow> pyval \<Rightarrow> pyval \<Rightarrow> packet \<Rightarrow> 'w \<Rightarrow> (errcode \<times> 'w) outcome) \<Rightarrow>
   noc \<Rightarrow> basic_router_tlm \<Rightarrow> pyval \<Rightarrow> pyval \<Rightarrow> packet \<Rightarrow> 'w \<Rightarrow> (errcode \<times> 'w) outcome" where
  "send chan_recv G self src dest packet w =
     (case dest of
        IntVal a \<Rightarrow>
          (case get_router_by_address G a of
             None \<Rightarrow> Return (tlm_badcall_send, w)
           | Some therouter \<Rightarrow>
               (case ports_info self (router_address G therouter) of
                  None \<Rightarrow> Raise KeyError
                | Some p \<Rightarrow> send_call chan_recv self (port_channel p) packet w))
      | RouterRef r \<Rightarrow>
          (case ports_info self (router_address G r) of
             None \<Rightarrow> Raise KeyError
           | Some p \<Rightarrow> send_call chan_recv self (port_channel p) packet w)
      | ChannelRef c \<Rightarrow> send_call chan_recv self (ChannelRef c) packet w
      | _ \<Rightarrow> Return (tlm_badcall_send, w))"

section \<open>IPCore TLM model (basic\_ipcore.py)\<close>

record basic_ipcore_tlm =
  incoming_packet :: "packet signal"
  outgoing_packet :: "packet signal"

definition ipcore_recv :: "basic_ipcore_tlm \<Rightarrow> pyval \<Rightarrow> pyval \<Rightarrow> packet \<Rightarrow> errcode \<times> basic_ipcore_tlm" where
  "ipcore_recv self src dest packet =
     (no_error, self\<lparr>incoming_packet := (incoming_packet self)\<lparr>next_val := packet\<rparr>\<rparr>)"

section \<open>The processes of the router (basic\_router.py, lines 120-176)\<close>

text \<open>
  \<^verbatim>\<open>flush_fifo_out\<close>, lines 129-130: the packet at index 0 of the output FIFO of \<open>port\<close> is
  popped. The process then waits \<^verbatim>\<open>delay_outfromfifo\<close>, holding the packet.
\<close>

definition flush_pop :: "basic_router_tlm \<Rightarrow> int \<Rightarrow> (packet \<times> basic_router_tlm) outcome" where
  "flush_pop self port =
     (case ports_info self port of
        None \<Rightarrow> Raise KeyError
      | Some data \<Rightarrow>
          (case fifo_out data of
             [] \<Rightarrow> Raise IndexError
           | packet # rest \<Rightarrow>
               Return (packet, self\<lparr>ports_info := (ports_info self)(port \<mapsto> data\<lparr>fifo_out := rest\<rparr>)\<rparr>)))"

text \<open>
  \<^verbatim>\<open>flush_fifo_out\<close>, lines 135-144: what the process does with the return code of
  \<^verbatim>\<open>send\<close>. \<open>data\<close> is the dict of the port, which is never removed from \<open>ports_info\<close>.
\<close>

definition flush_after_send :: "basic_router_tlm \<Rightarrow> int \<Rightarrow> packet \<Rightarrow> errcode \<Rightarrow> basic_router_tlm" where
  "flush_after_send self port packet retval =
     (case ports_info self port of
        None \<Rightarrow> self
      | Some data \<Rightarrow>
          if retval = no_error
          then self\<lparr>ports_info := (ports_info self)(port \<mapsto>
                 data\<lparr>fifo_out_event := (fifo_out_event data)\<lparr>next_val := False\<rparr>\<rparr>)\<rparr>
          else self\<lparr>ports_info := (ports_info self)(port \<mapsto>
                 data\<lparr>fifo_out := fifo_out data @ [packet]\<rparr>)\<rparr>)"

text \<open>
  \<^verbatim>\<open>routing_loop\<close>, lines 159-165: the oldest packet of the input FIFO of \<open>port\<close> is popped and
  the next address is read from the routing table. The process then waits
  \<^verbatim>\<open>delay_route\<close>, holding the packet and the next address.
\<close>

definition routing_pop :: "basic_router_tlm \<Rightarrow> int \<Rightarrow> (int \<times> packet \<times> basic_router_tlm) outcome" where
  "routing_pop self port =
     (case ports_info self port of
        None \<Rightarrow> Raise KeyError
      | Some data \<Rightarrow>
          (case fifo_in data of
             [] \<Rightarrow> Raise IndexError
           | packet # rest \<Rightarrow>
               (case packet_get packet ''dst'' of
                  Raise e \<Rightarrow> Raise e
                | Return destaddr \<Rightarrow>
                    (case routingtable self destaddr of
                       None \<Rightarrow> Raise KeyError
                     | Some hops \<Rightarrow>
                         (case py_getitem hops 0 of
                            Raise e \<Rightarrow> Raise e
                          | Return nextaddr \<Rightarrow>
                              Return (nextaddr, packet,
                                self\<lparr>ports_info := (ports_info self)(port \<mapsto>
                                  data\<lparr>fifo_in := rest,
                                    fifo_in_event := (fifo_in_event data)\<lparr>next_val := False\<rparr>\<rparr>)\<rparr>))))))"

text \<open>\<^verbatim>\<open>routing_loop\<close>, lines 169-173: after the delay the packet goes to the output FIFO.\<close>

definition routing_push :: "basic_router_tlm \<Rightarrow> int \<Rightarrow> packet \<Rightarrow> basic_router_tlm outcome" where
  "routing_push self nextaddr packet =
     (case ports_info self nextaddr of
        None \<Rightarrow> Raise KeyError
      | Some data \<Rightarrow>
          Return (self\<lparr>ports_info := (ports_info self)(nextaddr \<mapsto>
            data\<lparr>fifo_out := fifo_out data @ [packet],
              fifo_out_event := (fifo_out_event data)\<lparr>next_val := True\<rparr>\<rparr>)\<rparr>))"

text \<open>
  One router in the simulation. The two generators are suspended either on their signal
  lists or inside a delay; \<open>flush_held\<close> and \<open>routing_held\<close> are the local variables a suspended
  generator holds during its delay. An event is one atomic piece of code between two
  suspension points, or a call of \<^verbatim>\<open>recv\<close> by a channel. The return code of \<^verbatim>\<open>send\<close> comes
  from the receiving side and is part of the event.
\<close>

record router_sim =
  tlm :: basic_router_tlm
  flush_held :: "(int \<times> packet) option"
  routing_held :: "(int \<times> packet) option"

datatype event =
    EvRecv pyval pyval packet
  | EvRoutingPop int
  | EvRoutingPush
  | EvFlushPop int
  | EvFlushSend errcode

text \<open>\<open>None\<close>: the event is not enabled in the state, or the code raises.\<close>

fun sim_step :: "noc \<Rightarrow> event \<Rightarrow> router_sim \<Rightarrow> router_sim option" where
  "sim_step G (EvRecv src dest packet) s =
     (case recv G (tlm s) src dest packet of
        Raise e \<Rightarrow> None
      | Return (code, self') \<Rightarrow> Some (s\<lparr>tlm := self'\<rparr>))"
| "sim_step G (EvRoutingPop port) s =
     (case routing_held s of
        Some h \<Rightarrow> None
      | None \<Rightarrow>
          (case ports_info (tlm s) port of
             None \<Rightarrow> None
           | Some data \<Rightarrow>
               if length (fifo_in data) > 0
               then (case routing_pop (tlm s) port of
                       Raise e \<Rightarrow> None
                     | Return (nextaddr, packet, self') \<Rightarrow>
                         Some (s\<lparr>tlm := self', routing_held := Some (nextaddr, packet)\<rparr>))
               else None))"
| "sim_step G EvRoutingPush s =
     (case routing_held s of
        None \<Rightarrow> None
      | Some (nextaddr, packet) \<Rightarrow>
          (case routing_push (tlm s) nextaddr packet of
             Raise e \<Rightarrow> None
           | Return self' \<Rightarrow> Some (s\<lparr>tlm := self', routing_held := None\<rparr>)))"
| "sim_step G (EvFlushPop port) s =
     (case flush_held s of
        Some h \<Rightarrow> None
      | None \<Rightarrow>
          (case ports_info (tlm s) port of
             None \<Rightarrow> None
           | Some data \<Rightarrow>
               if length (fifo_out data) > 0
               then (case flush_pop (tlm s) port of
                       Raise e \<Rightarrow> None
                     | Return (packet, self') \<Rightarrow>
                         Some (s\<lparr>tlm := self', flush_held := Some (port, packet)\<rparr>))
               else None))"
| "sim_step G (EvFlushSend retval) s =
     (case flush_held s of
        None \<Rightarrow> None
      | Some (port, packet) \<Rightarrow>
          Some (s\<lparr>tlm := flush_after_send (tlm s) port packet retval, flush_held := None\<rparr>))"

fun sim_run :: "noc \<Rightarrow> event list \<Rightarrow> router_sim \<Rightarrow> router_sim option" where
  "sim_run G [] s = Some s"
| "sim_run G (e # es) s = (case sim_step G e s of None \<Rightarrow> None | Some s' \<Rightarrow> sim_run G es s')"

section \<open>Routing table builder (noc\_base.py)\<close>

subsection \<open>Breadth-first predecessors\<close>

text \<open>
  \<^verbatim>\<open>all_shortest_paths\<close> starts with \<^verbatim>\<open>nx.predecessor(G, b)\<close> of the NetworkX library, which
  is not part of these sources. It is modelled after the library's breadth-first search:
  \<^verbatim>\<open>
  level = 0; nextlevel = [source]; seen = {source: level}; pred = {source: []}
  while nextlevel:
      level = level + 1
      thislevel = nextlevel; nextlevel = []
      for v in thislevel:
          for w in G[v]:
              if w not in seen:
                  pred[w] = [v]; seen[w] = level; nextlevel.append(w)
              elif seen[w] == level:
                  pred[w].append(v)
  return pred
  \<close>
  The dicts \<open>seen\<close> and \<open>pred\<close> always have the same keys; they are one map here, from a node
  to its level and its list of predecessors.
\<close>

type_synonym bfs_map = "int \<rightharpoonup> nat \<times> int list"

definition bfs_visit :: "nat \<Rightarrow> int \<Rightarrow> int \<Rightarrow> int list \<times> bfs_map \<Rightarrow> int list \<times> bfs_map" where
  "bfs_visit level v w st =
     (case st of (nextlevel, sp) \<Rightarrow>
        (case sp w of
           None \<Rightarrow> (nextlevel @ [w], sp(w \<mapsto> (level, [v])))
         | Some (l, ps) \<Rightarrow>
             if l = level then (nextlevel, sp(w \<mapsto> (l, ps @ [v]))) else (nextlevel, sp)))"

text \<open>The two for-loops; \<open>adj v\<close> is \<^verbatim>\<open>G[v]\<close>, the neighbours of \<open>v\<close> in iteration order.\<close>

definition bfs_level :: "(int \<Rightarrow> int list) \<Rightarrow> nat \<Rightarrow> int list \<Rightarrow> bfs_map \<Rightarrow> int list \<times> bfs_map" where
  "bfs_level adj level thislevel sp =
     fold (\<lambda>v st. fold (bfs_visit level v) (adj v) st) thislevel ([], sp)"

partial_function (option) bfs_loop :: "(int \<Rightarrow> int list) \<Rightarrow> nat \<Rightarrow> int list \<Rightarrow> bfs_map \<Rightarrow> bfs_map option" where
  "bfs_loop adj level nextlevel sp =
     (if nextlevel = [] then Some sp
      else (case bfs_level adj (level + 1) nextlevel sp of
              (nextlevel', sp') \<Rightarrow> bfs_loop adj (level + 1) nextlevel' sp'))"

declare bfs_loop.simps [code]

definition predecessor :: "noc \<Rightarrow> int \<Rightarrow> (int \<rightharpoonup> int list) option" where
  "predecessor G source =
     map_option (\<lambda>sp n. map_option snd (sp n)) (bfs_loop (neighbors G) 0 [source] [source \<mapsto> (0, [])])"

subsection \<open>all\_shortest\_paths\<close>

text \<open>The variables of the loop of \<^verbatim>\<open>all_shortest_paths\<close> (lines 870-887).\<close>

record asp_state =
  pth :: "(int \<times> nat) list"
  pthlength :: nat
  ind :: int
  ret :: "int list list"

text \<open>One pass through the body of the while loop (lines 874-887).\<close>

definition asp_step :: "(int \<rightharpoonup> int list) \<Rightarrow> int \<Rightarrow> asp_state \<Rightarrow> asp_state outcome" where
  "asp_step pred b s =
     (case py_getitem (pth s) (ind s) of
        Raise e \<Rightarrow> Raise e
      | Return (n, i) \<Rightarrow>
          (let ret1 = (if n = b then ret s @ [map fst (take (nat (ind s + 1)) (pth s))] else ret s)
           in case pred n of
                None \<Rightarrow> Raise KeyError
              | Some ps \<Rightarrow>
                  if length ps > i
                  then (let ind1 = ind s + 1
                        in if ind1 = int (pthlength s)
                           then Return (s\<lparr>pth := pth s @ [(ps ! i, 0)],
                                          pthlength := pthlength s + 1, ind := ind1, ret := ret1\<rparr>)
                           else Return (s\<lparr>pth := (pth s)[nat ind1 := (ps ! i, 0)],
                                          ind := ind1, ret := ret1\<rparr>))
                  else (let ind1 = ind s - 1
                        in if ind1 \<ge> 0
                           then Return (s\<lparr>pth := (pth s)[nat ind1 :=
                                            (fst (pth s ! nat ind1), snd (pth s ! nat ind1) + 1)],
                                          ind := ind1, ret := ret1\<rparr>)
                           else Return (s\<lparr>ind := ind1, ret := ret1\<rparr>))))"

partial_function (option) asp_loop :: "(int \<rightharpoonup> int list) \<Rightarrow> int \<Rightarrow> asp_state \<Rightarrow> int list list outcome option" where
  "asp_loop pred b s =
     (if ind s \<ge> 0
      then (case asp_step pred b s of
              Raise e \<Rightarrow> Some (Raise e)
            | Return s' \<Rightarrow> asp_loop pred b s')
      else Some (Return (ret s)))"

declare asp_loop.simps [code]

text \<open>\<open>None\<close>: the call does not return; \<open>Some (Raise e)\<close>: it raises.\<close>

definition all_shortest_paths :: "noc \<Rightarrow> int \<Rightarrow> int \<Rightarrow> int list list outcome option" where
  "all_shortest_paths G a b =
     (case predecessor G b of
        None \<Rightarrow> None
      | Some pred \<Rightarrow>
          (case pred a of
             None \<Rightarrow> Some (Return [])
           | Some ps \<Rightarrow> asp_loop pred b \<lparr>pth = [(a, 0)], pthlength = 1, ind = 0, ret = []\<rparr>))"

subsection \<open>update\_routes\_info\<close>

record route_entry =
  nexthop :: int
  paths :: "int list list"

type_synonym routes = "int \<rightharpoonup> route_entry list"

text \<open>
  Lines 630-637 for one route: the route is appended to the paths of every entry whose
  \<^verbatim>\<open>"next"\<close> is \<^verbatim>\<open>route[1]\<close>; if there is none, a new entry is appended.
\<close>

definition add_route :: "int list \<Rightarrow> route_entry list \<Rightarrow> route_entry list outcome" where
  "add_route route entries =
     (case py_getitem route 1 of
        Raise e \<Rightarrow> Raise e
      | Return h \<Rightarrow>
          Return (map (\<lambda>e. if h = nexthop e then e\<lparr>paths := paths e @ [route]\<rparr> else e) entries
                  @ (if list_ex (\<lambda>e. h = nexthop e) entries then []
                     else [\<lparr>nexthop = h, paths = [route]\<rparr>])))"

text \<open>Line 626: the loop over the routes of one destination.\<close>

fun add_routes :: "int list list \<Rightarrow> route_entry list \<Rightarrow> route_entry list outcome" where
  "add_routes [] entries = Return entries"
| "add_routes (route # rest) entries =
     (case add_route route entries of
        Raise e \<Rightarrow> Raise e
      | Return entries' \<Rightarrow> add_routes rest entries')"

text \<open>Line 603: the loop over the routers of the graph; \<open>self\<close> is the index of the router.\<close>

fun update_routes_loop :: "noc \<Rightarrow> int \<Rightarrow> int list \<Rightarrow> routes \<Rightarrow> routes outcome option" where
  "update_routes_loop G self [] routes_info = Some (Return routes_info)"
| "update_routes_loop G self (destrouter # rest) routes_info =
     (if destrouter = self then update_routes_loop G self rest routes_info
      else (case all_shortest_paths G self destrouter of
              None \<Rightarrow> None
            | Some (Raise e) \<Rightarrow> Some (Raise e)
            | Some (Return shortest_routes) \<Rightarrow>
                (case add_routes (map (map (router_address G)) shortest_routes) [] of
                   Raise e \<Rightarrow> Some (Raise e)
                 | Return entries \<Rightarrow>
                     update_routes_loop G self rest (routes_info(destrouter \<mapsto> entries)))))"

text \<open>
  \<^verbatim>\<open>update_routes_info\<close>: \<open>routes_info\<close> is the table the router holds before the call, which
  the call clears first.
\<close>

definition update_routes_info :: "noc \<Rightarrow> int \<Rightarrow> routes \<Rightarrow> routes outcome option" where
  "update_routes_info G self routes_info = update_routes_loop G self (router_list G) Map.empty"

subsection \<open>Construction of the router TLM model (basic\_router.py, lines 60-116)\<close>

text \<open>
  \<open>ports\<close> is the dict \<^verbatim>\<open>router_ref.ports\<close> after \<^verbatim>\<open>update_ports_info()\<close>: the peer and the
  channel of every port, keyed by the address of the neighbour, with the router's own
  address as the key of the port to its ipcore.
\<close>

definition new_port :: "pyval \<times> pyval \<Rightarrow> port" where
  "new_port pc =
     \<lparr>peer = fst pc, port_channel = snd pc, fifo_in = [], fifo_out = [],
      fifo_in_event = \<lparr>val = False, next_val = False\<rparr>,
      fifo_out_event = \<lparr>val = False, next_val = False\<rparr>\<rparr>"


section \<open>An example: a 2x2 mesh\<close>

text \<open>
  Four routers 0..3 with the channels 0-1, 0-2, 1-3 and 2-3 (channels 0..3), every router
  with an ipcore (ipcore \<open>i\<close> on channel \<open>10 + i\<close>). Addresses are the indexes, as
  \<^verbatim>\<open>add_router\<close> sets them.
\<close>

definition mesh :: noc where
  "mesh =
     \<lparr>node_list = [0, 1, 2, 3],
      neighbors = (\<lambda>n. if n = 0 then [1, 2] else if n = 1 then [0, 3]
                        else if n = 2 then [0, 3] else if n = 3 then [1, 2] else []),
      router_address = (\<lambda>n. n),
      ipcore_router = (\<lambda>i. RouterRef (int i)),
      channel_endpoints =
        (\<lambda>c. if c = 0 then [RouterRef 0, RouterRef 1]
              else if c = 1 then [RouterRef 0, RouterRef 2]
              else if c = 2 then [RouterRef 1, RouterRef 3]
              else if c = 3 then [RouterRef 2, RouterRef 3]
              else if c = 10 then [RouterRef 0, IpcoreRef 0]
              else [NoneVal, NoneVal])\<rparr>"

text \<open>The ports of router 0 after \<^verbatim>\<open>update_ports_info\<close>.\<close>

definition mesh_ports0 :: "int \<rightharpoonup> pyval \<times> pyval" where
  "mesh_ports0 =
     [0 \<mapsto> (IpcoreRef 0, ChannelRef 10), 1 \<mapsto> (RouterRef 1, ChannelRef 0),
      2 \<mapsto> (RouterRef 2, ChannelRef 1)]"

text \<open>The TLM model of router 0 with \<open>fifo_len = 1\<close>.\<close>

definition mesh_tlm0 :: basic_router_tlm where
  "mesh_tlm0 =
     \<lparr>router_ref = 0, fifo_len = 1, myaddress = 0,
      ports_info = (\<lambda>a. map_option new_port (mesh_ports0 a)),
      routingtable = [1 \<mapsto> [1], 2 \<mapsto> [2], 3 \<mapsto> [1, 2], 0 \<mapsto> [0]]\<rparr>"

definition packet_a :: packet where
  "packet_a = [(''src'', 0), (''dst'', 3), (''data'', 1)]"

definition packet_b :: packet where
  "packet_b = [(''src'', 0), (''dst'', 3), (''data'', 2)]"

definition mesh_sim0 :: router_sim where
  "mesh_sim0 = \<lparr>tlm = mesh_tlm0, flush_held = None, routing_held = None\<rparr>"

text \<open>Router 0 of the mesh with \<open>packet_a\<close> in the input FIFO of port 1, which is then full.\<close>

definition mesh_tlm0_full :: basic_router_tlm where
  "mesh_tlm0_full = mesh_tlm0\<lparr>ports_info := (ports_info mesh_tlm0)(1 \<mapsto>
        (new_port (RouterRef 1, ChannelRef 0))\<lparr>fifo_in := [packet_a],
            fifo_in_event := \<lparr>val = False, next_val = True\<rparr>\<rparr>)\<rparr>"

text \<open>Router 0 with two packets, and with one packet, in the output FIFO of port 1.\<close>

definition mesh_tlm0_two_out :: basic_router_tlm where
  "mesh_tlm0_two_out = mesh_tlm0\<lparr>ports_info := (ports_info mesh_tlm0)(1 \<mapsto>
        (new_port (RouterRef 1, ChannelRef 0))\<lparr>fifo_out := [packet_a, packet_b]\<rparr>)\<rparr>"

definition mesh_tlm0_one_out :: basic_router_tlm where
  "mesh_tlm0_one_out = mesh_tlm0\<lparr>ports_info := (ports_info mesh_tlm0)(1 \<mapsto>
        (new_port (RouterRef 1, ChannelRef 0))\<lparr>fifo_out := [packet_b]\<rparr>)\<rparr>"

text \<open>The bound of the input FIFOs: no port holds more than \<open>fifo_len\<close> packets in \<open>fifo_in\<close>.\<close>

definition fifo_in_bounded :: "basic_router_tlm \<Rightarrow> bool" where
  "fifo_in_bounded self =
     (\<forall>a p. ports_info self a = Some p \<longrightarrow> int (length (fifo_in p)) \<le> fifo_len self)"

text \<open>
  A run of router 0: a packet for router 3 comes from the ipcore and is routed to port 1,
  its \<^verbatim>\<open>send\<close> fails with \<open>full_fifo\<close>, and a second packet follows the same way.
\<close>

definition overflow_events :: "event list" where
  "overflow_events =
     [EvRecv (ChannelRef 10) (RouterRef 0) packet_a, EvRoutingPop 0, EvRoutingPush,
      EvFlushPop 1, EvFlushSend full_fifo,
      EvRecv (ChannelRef 10) (RouterRef 0) packet_b, EvRoutingPop 0, EvRoutingPush]"

section \<open>The grouping of routes as the specification words it\<close>

text \<open>
  The distinct elements of a list in the order of their first occurrence, the second node
  of a route, and the table entries of one destination: one entry per distinct first hop,
  in discovery order, each with all the routes through that hop, in discovery order.
\<close>

definition first_occurrences :: "'a list \<Rightarrow> 'a list" where
  "first_occurrences xs = rev (remdups (rev xs))"

definition second_node :: "int list \<Rightarrow> int" where
  "second_node route = route ! 1"

definition group_by_first_hop :: "int list list \<Rightarrow> route_entry list" where
  "group_by_first_hop routes =
     map (\<lambda>h. \<lparr>nexthop = h, paths = filter (\<lambda>route. second_node route = h) routes\<rparr>)
       (first_occurrences (map second_node routes))"

section \<open>A second example: a 2x3 grid\<close>

text \<open>
  Routers 0, 1, 2 in the first row and 3, 4, 5 in the second. \<open>grid_routes0\<close> is the table
  of router 0.
\<close>

definition grid :: noc where
  "grid =
     \<lparr>node_list = [0, 1, 2, 3, 4, 5],
      neighbors = (\<lambda>n. if n = 0 then [1, 3] else if n = 1 then [0, 2, 4]
                        else if n = 2 then [1, 5] else if n = 3 then [0, 4]
                        else if n = 4 then [3, 1, 5] else if n = 5 then [4, 2] else []),
      router_address = (\<lambda>n. n),
      ipcore_router = (\<lambda>i. RouterRef (int i)),
      channel_endpoints = (\<lambda>c. [NoneVal, NoneVal])\<rparr>"


section \<open>Shortest paths and the chain of preferred next hops\<close>

text \<open>
  A walk in the graph: a non-empty list of nodes in which every node is followed by one of its
  neighbours. A walk of \<open>n + 1\<close> nodes has \<open>n\<close> hops.
\<close>

fun walk :: "(int \<Rightarrow> int list) \<Rightarrow> int list \<Rightarrow> bool" where
  "walk adj [] = False"
| "walk adj [x] = True"
| "walk adj (x # y # zs) = (y \<in> set (adj x) \<and> walk adj (y # zs))"

text \<open>The shortest-path hop distance: the least number of hops of a walk from \<open>a\<close> to \<open>b\<close>.\<close>

definition hop_distance :: "noc \<Rightarrow> int \<Rightarrow> int \<Rightarrow> nat" where
  "hop_distance G a b =
     (LEAST n. \<exists>xs. walk (neighbors G) xs \<and> hd xs = a \<and> last xs = b \<and> length xs = Suc n)"

text \<open>
  What the NoC container guarantees of its graph: it is an undirected NetworkX graph, so the
  neighbours of a node are nodes and adjacency is symmetric, and \<^verbatim>\<open>add_router\<close> gives every
  router its index as address.
\<close>

definition wf_noc :: "noc \<Rightarrow> bool" where
  "wf_noc G =
     ((\<forall>v \<in> set (node_list G). \<forall>w \<in> set (neighbors G v).
         w \<in> set (node_list G) \<and> v \<in> set (neighbors G w)) \<and>
      (\<forall>v \<in> set (node_list G). router_address G v = v))"

text \<open>
  The preferred next hop of router \<open>r\<close> for the destination \<open>dest\<close>: the \<^verbatim>\<open>"next"\<close> field of
  the entry at index 0 of \<open>routes_info[dest]\<close>, as \<^verbatim>\<open>update_routes_info\<close> builds it.
\<close>

definition preferred_next :: "noc \<Rightarrow> int \<Rightarrow> int \<Rightarrow> int option" where
  "preferred_next G r dest =
     (case update_routes_info G r Map.empty of
        Some (Return routes_info) \<Rightarrow>
          (case routes_info dest of
             Some (entry # rest) \<Rightarrow> Some (nexthop entry)
           | _ \<Rightarrow> None)
      | _ \<Rightarrow> None)"

text \<open>
  The router reached from \<open>r\<close> after \<open>k\<close> hops along the preferred next hops towards \<open>dest\<close>;
  the next hop is an address, and the router is looked up by it.
\<close>

fun follow :: "noc \<Rightarrow> int \<Rightarrow> nat \<Rightarrow> int \<Rightarrow> int option" where
  "follow G dest 0 r = Some r"
| "follow G dest (Suc k) r =
     (case preferred_next G r dest of
        None \<Rightarrow> None
      | Some h \<Rightarrow>
          (case get_router_by_address G h of
             None \<Rightarrow> None
           | Some r' \<Rightarrow> follow G dest k r'))"

section \<open>Auxiliary notions for the proofs about the routing table\<close>

text \<open>
  The breadth-first levels of the graph from \<open>b\<close>: the nodes of level \<open>n\<close> and the nodes of all
  levels up to \<open>n\<close>.
\<close>

fun levreach :: "(int \<Rightarrow> int list) \<Rightarrow> int \<Rightarrow> nat \<Rightarrow> int set \<times> int set" where
  "levreach adj b 0 = ({b}, {b})"
| "levreach adj b (Suc n) =
     (let l = fst (levreach adj b n); r = snd (levreach adj b n);
          l' = {w. \<exists>v \<in> l. w \<in> set (adj v)} - r
      in (l', r \<union> l'))"

definition lev :: "(int \<Rightarrow> int list) \<Rightarrow> int \<Rightarrow> nat \<Rightarrow> int set" where
  "lev adj b n = fst (levreach adj b n)"

definition reach :: "(int \<Rightarrow> int list) \<Rightarrow> int \<Rightarrow> nat \<Rightarrow> int set" where
  "reach adj b n = snd (levreach adj b n)"

text \<open>
  The invariants of the breadth-first search: what an entry of the map says (its level, and
  predecessors that are neighbours one level below), the state at the head of the while
  loop, and the state inside the two for-loops after the edges \<open>E\<close>.
\<close>

definition entry_ok :: "(int \<Rightarrow> int list) \<Rightarrow> int \<Rightarrow> int \<Rightarrow> nat \<Rightarrow> int list \<Rightarrow> bool" where
  "entry_ok adj b w l ps =
     (w \<in> lev adj b l \<and>
      (if l = 0 then ps = []
       else ps \<noteq> [] \<and> (\<forall>v \<in> set ps. v \<in> lev adj b (l - 1) \<and> w \<in> set (adj v))))"

definition bfs_inv :: "(int \<Rightarrow> int list) \<Rightarrow> int \<Rightarrow> nat \<Rightarrow> int list \<Rightarrow> bfs_map \<Rightarrow> bool" where
  "bfs_inv adj b L nl sp =
     (set nl = lev adj b L \<and> dom sp = reach adj b L \<and>
      (\<forall>w l ps. sp w = Some (l, ps) \<longrightarrow> entry_ok adj b w l ps))"

definition visit_inv ::
  "(int \<Rightarrow> int list) \<Rightarrow> int \<Rightarrow> nat \<Rightarrow> bfs_map \<Rightarrow> (int \<times> int) set \<Rightarrow> int list \<Rightarrow> bfs_map \<Rightarrow> bool" where
  "visit_inv adj b L sp E nl sp' =
     ((\<forall>w \<in> reach adj b L. sp' w = sp w) \<and>
      set nl = dom sp' - reach adj b L \<and>
      (\<forall>w \<in> set nl. \<exists>ps. sp' w = Some (Suc L, ps) \<and> ps \<noteq> [] \<and> (\<forall>v \<in> set ps. (v, w) \<in> E)) \<and>
      (\<forall>e \<in> E. snd e \<in> dom sp'))"

text \<open>The pairs \<open>(v, w)\<close> that the two for-loops of one level visit, in order.\<close>

definition level_edges :: "(int \<Rightarrow> int list) \<Rightarrow> int list \<Rightarrow> (int \<times> int) list" where
  "level_edges adj vs = concat (map (\<lambda>v. map (Pair v) (adj v)) vs)"

text \<open>
  What \<^verbatim>\<open>nx.predecessor(G, b)\<close> returns: its keys are the nodes reachable from \<open>b\<close>; \<open>b\<close> has no
  predecessor, and every other node has a non-empty list of neighbours one level below.
\<close>

definition pred_ok :: "(int \<Rightarrow> int list) \<Rightarrow> int \<Rightarrow> (int \<rightharpoonup> int list) \<Rightarrow> bool" where
  "pred_ok adj b P =
     ((\<forall>w. (w \<in> dom P) = (\<exists>l. w \<in> lev adj b l)) \<and>
      (\<forall>w l. w \<in> lev adj b l \<longrightarrow>
         (\<exists>ps. P w = Some ps \<and>
            (if l = 0 then ps = []
             else ps \<noteq> [] \<and> (\<forall>v \<in> set ps. v \<in> lev adj b (l - 1) \<and> w \<in> set (adj v))))))"

text \<open>
  The paths that the loop of \<^verbatim>\<open>all_shortest_paths\<close> collects from a node of level \<open>l\<close>, in
  discovery order, and those collected from the stack frame \<open>(n, i)\<close> on.
\<close>

fun dfs_paths :: "(int \<rightharpoonup> int list) \<Rightarrow> int \<Rightarrow> nat \<Rightarrow> int \<Rightarrow> int list list" where
  "dfs_paths P b 0 n = (if n = b then [[n]] else [])"
| "dfs_paths P b (Suc k) n =
     (if n = b then [[n]] else []) @
     concat (map (\<lambda>p. map ((#) n) (dfs_paths P b k p)) (case P n of None \<Rightarrow> [] | Some ps \<Rightarrow> ps))"

definition frame_paths :: "(int \<rightharpoonup> int list) \<Rightarrow> int \<Rightarrow> nat \<Rightarrow> int \<Rightarrow> int list \<Rightarrow> nat \<Rightarrow> int list list" where
  "frame_paths P b l n ps i =
     (if n = b then [[n]] else []) @
     concat (map (\<lambda>p. map ((#) n) (dfs_paths P b (l - 1) p)) (drop i ps))"

section \<open>States of the example used below\<close>

text \<open>The mesh with channels whose second endpoint is no NoC object.\<close>

definition mesh_dangling :: noc where
  "mesh_dangling = mesh\<lparr>channel_endpoints := (\<lambda>c. [RouterRef 0, NoneVal])\<rparr>"




section \<open>Properties of the transaction methods\<close>

subsection \<open>Facts about the example\<close>

lemma mesh_thesrc_ch0: "recv_thesrc mesh mesh_tlm0 (ChannelRef 0) = Return (Some 1)"
  by (simp add: recv_thesrc_def mesh_def mesh_tlm0_def py_getitem_def)

lemma mesh_port1: "ports_info mesh_tlm0 1 = Some (new_port (RouterRef 1, ChannelRef 0))"
  by (simp add: mesh_tlm0_def mesh_ports0_def)

lemma mesh_full_thesrc: "recv_thesrc mesh mesh_tlm0_full (ChannelRef 0) = Return (Some 1)"
  by (simp add: recv_thesrc_def mesh_def mesh_tlm0_def mesh_tlm0_full_def py_getitem_def)

subsection \<open>recv of the router\<close>

text \<open>
  C4: when \<open>src\<close> resolves to the address \<open>a\<close> of a port of the router, \<^verbatim>\<open>recv\<close> returns
  \<open>full_fifo\<close> exactly when the input FIFO of that port already holds \<open>fifo_len\<close> packets, and
  then the router is unchanged; otherwise the packet is appended at the back of the input
  FIFO, the pending value of the input signal is set, and \<open>no_error\<close> is returned.
\<close>

theorem recv_full_fifo_iff:
  assumes "recv_thesrc G self src = Return (Some a)" and "ports_info self a = Some p"
  shows "recv G self src dest packet =
           (if int (length (fifo_in p)) = fifo_len self then Return (full_fifo, self)
            else Return (no_error,
              self\<lparr>ports_info := (ports_info self)(a \<mapsto>
                p\<lparr>fifo_in := fifo_in p @ [packet],
                  fifo_in_event := (fifo_in_event p)\<lparr>next_val := True\<rparr>\<rparr>)\<rparr>))"
  using assms by (simp add: recv_def recv_enqueue_def)

theorem recv_full_fifo_iff_witness:
  "recv mesh mesh_tlm0 (ChannelRef 0) (RouterRef 0) packet_a = Return (no_error, mesh_tlm0_full)
   \<and> recv mesh mesh_tlm0_full (ChannelRef 0) (RouterRef 0) packet_b = Return (full_fifo, mesh_tlm0_full)"
proof
  show "recv mesh mesh_tlm0 (ChannelRef 0) (RouterRef 0) packet_a = Return (no_error, mesh_tlm0_full)"
    using recv_full_fifo_iff [OF mesh_thesrc_ch0 mesh_port1, of "RouterRef 0" packet_a]
    by (simp add: mesh_tlm0_full_def new_port_def mesh_tlm0_def)
  have p: "ports_info mesh_tlm0_full 1 = Some ((new_port (RouterRef 1, ChannelRef 0))\<lparr>fifo_in := [packet_a],
            fifo_in_event := \<lparr>val = False, next_val = True\<rparr>\<rparr>)"
    by (simp add: mesh_tlm0_full_def)
  show "recv mesh mesh_tlm0_full (ChannelRef 0) (RouterRef 0) packet_b = Return (full_fifo, mesh_tlm0_full)"
    using recv_full_fifo_iff [OF mesh_full_thesrc p, of "RouterRef 0" packet_b]
    by (simp add: mesh_tlm0_full_def mesh_tlm0_def)
qed

text \<open>
  The claim C7 as stated fails: an address that is not a key of \<open>ports_info\<close> makes
  \<^verbatim>\<open>recv\<close> raise KeyError; no code is returned.
\<close>

theorem recv_unknown_port_counterexample:
  "ports_info mesh_tlm0 7 = None \<and>
   recv mesh mesh_tlm0 (IntVal 7) (RouterRef 0) packet_a = Raise KeyError"
  by (simp add: recv_def recv_thesrc_def recv_enqueue_def mesh_tlm0_def mesh_ports0_def)

lemma recv_badcall_other:
  assumes "src = IpcoreRef ip \<or> src = NoneVal \<or> src = OtherVal"
  shows "recv G self src dest packet = Return (tlm_badcall_recv, self)"
  using assms by (auto simp: recv_def recv_thesrc_def)

lemma recv_badcall_channel:
  assumes "src = ChannelRef c"
    and "list_index (channel_endpoints G c) (RouterRef (router_ref self)) = Some i"
    and "py_getitem (channel_endpoints G c) (int i - 1) = Return e"
    and "\<forall>r. e \<noteq> RouterRef r" and "\<forall>x. e \<noteq> IpcoreRef x"
  shows "recv G self src dest packet = Return (tlm_badcall_recv, self)"
proof -
  from assms(4,5) have "recv_thesrc G self src = Return None"
    unfolding recv_thesrc_def assms(1) using assms(2,3) by (cases e) simp_all
  then show ?thesis by (simp add: recv_def)
qed

lemma recv_enqueue_not_badcall:
  "recv_enqueue self a packet \<noteq> Return (tlm_badcall_recv, s')"
  by (simp add: recv_enqueue_def split: option.splits)

lemma recv_badcall_only:
  assumes "recv G self src dest packet = Return (tlm_badcall_recv, s')"
  shows "s' = self \<and>
         ((\<exists>ip. src = IpcoreRef ip) \<or> src = NoneVal \<or> src = OtherVal \<or>
          (\<exists>c i e. src = ChannelRef c \<and>
             list_index (channel_endpoints G c) (RouterRef (router_ref self)) = Some i \<and>
             py_getitem (channel_endpoints G c) (int i - 1) = Return e \<and>
             (\<forall>r. e \<noteq> RouterRef r) \<and> (\<forall>x. e \<noteq> IpcoreRef x)))"
proof (cases src)
  case (IntVal a)
  with assms recv_enqueue_not_badcall [of self a packet s'] show ?thesis
    by (simp add: recv_def recv_thesrc_def)
next
  case (RouterRef r)
  with assms recv_enqueue_not_badcall [of self "router_address G r" packet s'] show ?thesis
    by (simp add: recv_def recv_thesrc_def)
next
  case (IpcoreRef ip)
  with assms show ?thesis by (simp add: recv_def recv_thesrc_def)
next
  case NoneVal
  with assms show ?thesis by (simp add: recv_def recv_thesrc_def)
next
  case OtherVal
  with assms show ?thesis by (simp add: recv_def recv_thesrc_def)
next
  case (ChannelRef c)
  show ?thesis
  proof (cases "list_index (channel_endpoints G c) (RouterRef (router_ref self))")
    case None
    with assms ChannelRef show ?thesis by (simp add: recv_def recv_thesrc_def)
  next
    case (Some i)
    show ?thesis
    proof (cases "py_getitem (channel_endpoints G c) (int i - 1)")
      case (Raise x)
      with assms ChannelRef Some show ?thesis by (simp add: recv_def recv_thesrc_def)
    next
      case (Return e)
      show ?thesis
      proof (cases e)
        case (IntVal x)
        with assms ChannelRef Some Return show ?thesis by (simp add: recv_def recv_thesrc_def)
      next
        case (RouterRef r)
        with assms ChannelRef Some Return recv_enqueue_not_badcall [of self "router_address G r" packet s']
        show ?thesis by (simp add: recv_def recv_thesrc_def)
      next
        case (IpcoreRef ip)
        show ?thesis
        proof (cases "ipcore_router G ip")
          case (RouterRef r)
          with assms ChannelRef Some Return IpcoreRef
            recv_enqueue_not_badcall [of self "router_address G r" packet s']
          show ?thesis by (simp add: recv_def recv_thesrc_def)
        qed (use assms ChannelRef Some Return IpcoreRef in \<open>simp_all add: recv_def recv_thesrc_def\<close>)
      next
        case (ChannelRef x)
        with assms \<open>src = ChannelRef c\<close> Some Return show ?thesis by (simp add: recv_def recv_thesrc_def)
      next
        case NoneVal
        with assms ChannelRef Some Return show ?thesis by (simp add: recv_def recv_thesrc_def)
      next
        case OtherVal
        with assms ChannelRef Some Return show ?thesis by (simp add: recv_def recv_thesrc_def)
      qed
    qed
  qed
qed

text \<open>
  C7 (amended): \<^verbatim>\<open>recv\<close> returns \<open>tlm_badcall_recv\<close>, leaving the router unchanged, exactly
  when \<open>src\<close> is neither an int, a router nor a channel (an ipcore, \<^verbatim>\<open>None\<close>, anything else),
  or \<open>src\<close> is a channel whose endpoint opposite to this router is neither a router nor an
  ipcore. When \<open>src\<close> is an int or a router (or anything that converts to an address) and the
  address is not a key of \<open>ports_info\<close>, \<^verbatim>\<open>recv\<close> raises KeyError and returns no code.
\<close>

theorem recv_badcall_recv:
  "((src = IpcoreRef ip \<or> src = NoneVal \<or> src = OtherVal) \<longrightarrow>
      recv G self src dest packet = Return (tlm_badcall_recv, self)) \<and>
   (src = ChannelRef c \<and>
    list_index (channel_endpoints G c) (RouterRef (router_ref self)) = Some i \<and>
    py_getitem (channel_endpoints G c) (int i - 1) = Return e \<and>
    (\<forall>r. e \<noteq> RouterRef r) \<and> (\<forall>x. e \<noteq> IpcoreRef x) \<longrightarrow>
      recv G self src dest packet = Return (tlm_badcall_recv, self)) \<and>
   (recv G self src dest packet = Return (tlm_badcall_recv, s') \<longrightarrow>
      s' = self \<and>
      ((\<exists>ip. src = IpcoreRef ip) \<or> src = NoneVal \<or> src = OtherVal \<or>
       (\<exists>c i e. src = ChannelRef c \<and>
          list_index (channel_endpoints G c) (RouterRef (router_ref self)) = Some i \<and>
          py_getitem (channel_endpoints G c) (int i - 1) = Return e \<and>
          (\<forall>r. e \<noteq> RouterRef r) \<and> (\<forall>x. e \<noteq> IpcoreRef x)))) \<and>
   (src = IntVal a \<and> ports_info self a = None \<longrightarrow>
      recv G self src dest packet = Raise KeyError) \<and>
   (src = RouterRef r \<and> ports_info self (router_address G r) = None \<longrightarrow>
      recv G self src dest packet = Raise KeyError) \<and>
   (recv_thesrc G self src = Return (Some a) \<and> ports_info self a = None \<longrightarrow>
      recv G self src dest packet = Raise KeyError)"
proof (intro conjI impI)
  assume "src = IpcoreRef ip \<or> src = NoneVal \<or> src = OtherVal"
  then show "recv G self src dest packet = Return (tlm_badcall_recv, self)"
    by (rule recv_badcall_other)
next
  assume "src = ChannelRef c \<and>
    list_index (channel_endpoints G c) (RouterRef (router_ref self)) = Some i \<and>
    py_getitem (channel_endpoints G c) (int i - 1) = Return e \<and>
    (\<forall>r. e \<noteq> RouterRef r) \<and> (\<forall>x. e \<noteq> IpcoreRef x)"
  then show "recv G self src dest packet = Return (tlm_badcall_recv, self)"
    using recv_badcall_channel by blast
next
  assume r: "recv G self src dest packet = Return (tlm_badcall_recv, s')"
  from recv_badcall_only [OF r] show "s' = self" by blast
next
  assume r: "recv G self src dest packet = Return (tlm_badcall_recv, s')"
  from recv_badcall_only [OF r] show "(\<exists>ip. src = IpcoreRef ip) \<or> src = NoneVal \<or> src = OtherVal \<or>
       (\<exists>c i e. src = ChannelRef c \<and>
          list_index (channel_endpoints G c) (RouterRef (router_ref self)) = Some i \<and>
          py_getitem (channel_endpoints G c) (int i - 1) = Return e \<and>
          (\<forall>r. e \<noteq> RouterRef r) \<and> (\<forall>x. e \<noteq> IpcoreRef x))" by blast
next
  assume "src = IntVal a \<and> ports_info self a = None"
  then show "recv G self src dest packet = Raise KeyError"
    by (simp add: recv_def recv_thesrc_def recv_enqueue_def)
next
  assume "src = RouterRef r \<and> ports_info self (router_address G r) = None"
  then show "recv G self src dest packet = Raise KeyError"
    by (simp add: recv_def recv_thesrc_def recv_enqueue_def)
next
  assume "recv_thesrc G self src = Return (Some a) \<and> ports_info self a = None"
  then show "recv G self src dest packet = Raise KeyError"
    by (simp add: recv_def recv_enqueue_def)
qed

theorem recv_badcall_recv_witness:
  "recv mesh mesh_tlm0 OtherVal (RouterRef 0) packet_a = Return (tlm_badcall_recv, mesh_tlm0) \<and>
   recv mesh mesh_tlm0 NoneVal (RouterRef 0) packet_a = Return (tlm_badcall_recv, mesh_tlm0) \<and>
   recv mesh mesh_tlm0 (IpcoreRef 0) (RouterRef 0) packet_a = Return (tlm_badcall_recv, mesh_tlm0) \<and>
   recv mesh_dangling mesh_tlm0 (ChannelRef 0) (RouterRef 0) packet_a
     = Return (tlm_badcall_recv, mesh_tlm0) \<and>
   recv mesh mesh_tlm0 (RouterRef 3) (RouterRef 0) packet_a = Raise KeyError \<and>
   recv mesh mesh_tlm0 (IntVal 7) (RouterRef 0) packet_a = Raise KeyError"
proof (intro conjI)
  from recv_badcall_recv [of OtherVal 0 mesh mesh_tlm0 "RouterRef 0" packet_a 0 0 NoneVal mesh_tlm0 0 0]
  show "recv mesh mesh_tlm0 OtherVal (RouterRef 0) packet_a = Return (tlm_badcall_recv, mesh_tlm0)"
    by blast
  from recv_badcall_recv [of NoneVal 0 mesh mesh_tlm0 "RouterRef 0" packet_a 0 0 NoneVal mesh_tlm0 0 0]
  show "recv mesh mesh_tlm0 NoneVal (RouterRef 0) packet_a = Return (tlm_badcall_recv, mesh_tlm0)"
    by blast
  from recv_badcall_recv [of "IpcoreRef 0" 0 mesh mesh_tlm0 "RouterRef 0" packet_a 0 0 NoneVal mesh_tlm0 0 0]
  show "recv mesh mesh_tlm0 (IpcoreRef 0) (RouterRef 0) packet_a = Return (tlm_badcall_recv, mesh_tlm0)"
    by blast
  have i: "list_index (channel_endpoints mesh_dangling 0) (RouterRef (router_ref mesh_tlm0)) = Some 0"
    by (simp add: mesh_dangling_def mesh_tlm0_def)
  have g: "py_getitem (channel_endpoints mesh_dangling 0) (int 0 - 1) = Return NoneVal"
    by (simp add: mesh_dangling_def py_getitem_def)
  from recv_badcall_recv [of "ChannelRef 0" 0 mesh_dangling mesh_tlm0 "RouterRef 0" packet_a 0 0 NoneVal
      mesh_tlm0 0 0] i g
  show "recv mesh_dangling mesh_tlm0 (ChannelRef 0) (RouterRef 0) packet_a
     = Return (tlm_badcall_recv, mesh_tlm0)"
    by simp
  have p3: "ports_info mesh_tlm0 (router_address mesh 3) = None"
    by (simp add: mesh_tlm0_def mesh_ports0_def mesh_def)
  from recv_badcall_recv [of "RouterRef 3" 0 mesh mesh_tlm0 "RouterRef 0" packet_a 0 0 NoneVal mesh_tlm0 0 3] p3
  show "recv mesh mesh_tlm0 (RouterRef 3) (RouterRef 0) packet_a = Raise KeyError"
    by blast
  have p7: "ports_info mesh_tlm0 7 = None"
    by (simp add: mesh_tlm0_def mesh_ports0_def)
  from recv_badcall_recv [of "IntVal 7" 0 mesh mesh_tlm0 "RouterRef 0" packet_a 0 0 NoneVal mesh_tlm0 7 0] p7
  show "recv mesh mesh_tlm0 (IntVal 7) (RouterRef 0) packet_a = Raise KeyError"
    by blast
qed

subsection \<open>send of the router\<close>

text \<open>
  The claim C8 as stated fails: the address of a router of the graph that is not a
  neighbour has no port, and \<^verbatim>\<open>send\<close> raises KeyError instead of returning
  \<open>tlm_badcall_send\<close>.
\<close>

theorem send_no_port_counterexample:
  "get_router_by_address mesh 3 = Some 3 \<and> ports_info mesh_tlm0 3 = None \<and>
   send (\<lambda>c s d p w. Return (no_error, w)) mesh mesh_tlm0 (RouterRef 0) (IntVal 3) packet_a () = Raise KeyError"
  by (simp add: send_def get_router_by_address_def router_list_def mesh_def mesh_tlm0_def mesh_ports0_def)

text \<open>
  C8 (amended): a channel, a router with a port, or the address of a router with a port is
  resolved to the channel, whose \<^verbatim>\<open>recv\<close> is called with the same packet and whose result
  \<^verbatim>\<open>send\<close> returns unchanged. An address of no router, and a \<open>dest\<close> of another type, give
  \<open>tlm_badcall_send\<close> with no call of \<^verbatim>\<open>recv\<close>. A router without a port in \<open>ports_info\<close>
  gives KeyError.
\<close>

theorem send_resolves_dest:
  "(dest = ChannelRef c \<longrightarrow>
      send chan_recv G self src dest packet w =
        chan_recv c (RouterRef (router_ref self)) (ChannelRef c) packet w) \<and>
   (dest = RouterRef r \<and> ports_info self (router_address G r) = Some p \<and> port_channel p = ChannelRef c \<longrightarrow>
      send chan_recv G self src dest packet w =
        chan_recv c (RouterRef (router_ref self)) (ChannelRef c) packet w) \<and>
   (dest = IntVal a \<and> get_router_by_address G a = Some r \<and>
    ports_info self (router_address G r) = Some p \<and> port_channel p = ChannelRef c \<longrightarrow>
      send chan_recv G self src dest packet w =
        chan_recv c (RouterRef (router_ref self)) (ChannelRef c) packet w) \<and>
   (dest = IntVal a \<and> get_router_by_address G a = None \<longrightarrow>
      send chan_recv G self src dest packet w = Return (tlm_badcall_send, w)) \<and>
   (dest = IpcoreRef i \<or> dest = NoneVal \<or> dest = OtherVal \<longrightarrow>
      send chan_recv G self src dest packet w = Return (tlm_badcall_send, w)) \<and>
   (dest = RouterRef r \<and> ports_info self (router_address G r) = None \<longrightarrow>
      send chan_recv G self src dest packet w = Raise KeyError) \<and>
   (dest = IntVal a \<and> get_router_by_address G a = Some r \<and> ports_info self (router_address G r) = None \<longrightarrow>
      send chan_recv G self src dest packet w = Raise KeyError)"
proof (intro conjI impI)
  assume "dest = ChannelRef c"
  then show "send chan_recv G self src dest packet w =
        chan_recv c (RouterRef (router_ref self)) (ChannelRef c) packet w"
    by (simp add: send_def send_call_def)
next
  assume "dest = RouterRef r \<and> ports_info self (router_address G r) = Some p \<and> port_channel p = ChannelRef c"
  then show "send chan_recv G self src dest packet w =
        chan_recv c (RouterRef (router_ref self)) (ChannelRef c) packet w"
    by (simp add: send_def send_call_def)
next
  assume "dest = IntVal a \<and> get_router_by_address G a = Some r \<and>
    ports_info self (router_address G r) = Some p \<and> port_channel p = ChannelRef c"
  then show "send chan_recv G self src dest packet w =
        chan_recv c (RouterRef (router_ref self)) (ChannelRef c) packet w"
    by (simp add: send_def send_call_def)
next
  assume "dest = IntVal a \<and> get_router_by_address G a = None"
  then show "send chan_recv G self src dest packet w = Return (tlm_badcall_send, w)"
    by (simp add: send_def)
next
  assume "dest = IpcoreRef i \<or> dest = NoneVal \<or> dest = OtherVal"
  then show "send chan_recv G self src dest packet w = Return (tlm_badcall_send, w)"
    by (auto simp: send_def)
next
  assume "dest = RouterRef r \<and> ports_info self (router_address G r) = None"
  then show "send chan_recv G self src dest packet w = Raise KeyError"
    by (simp add: send_def)
next
  assume "dest = IntVal a \<and> get_router_by_address G a = Some r \<and> ports_info self (router_address G r) = None"
  then show "send chan_recv G self src dest packet w = Raise KeyError"
    by (simp add: send_def)
qed

theorem send_resolves_dest_witness:
  "send (\<lambda>c s d p w. Return (if c = 0 then full_fifo else no_error, p # w)) mesh mesh_tlm0
      (RouterRef 0) (IntVal 1) packet_a [] = Return (full_fifo, [packet_a]) \<and>
   send (\<lambda>c s d p w. Return (if c = 0 then full_fifo else no_error, p # w)) mesh mesh_tlm0
      (RouterRef 0) (IntVal 9) packet_a [] = Return (tlm_badcall_send, [])"
proof
  let ?cr = "\<lambda>(c::nat) (s::pyval) (d::pyval) (p::packet) (w::packet list).
               Return (if c = 0 then full_fifo else no_error, p # w)"
  have a: "get_router_by_address mesh 1 = Some 1"
    by (simp add: get_router_by_address_def router_list_def mesh_def)
  have b: "ports_info mesh_tlm0 (router_address mesh 1) = Some (new_port (RouterRef 1, ChannelRef 0))"
    by (simp add: mesh_tlm0_def mesh_ports0_def mesh_def)
  have c: "port_channel (new_port (RouterRef 1, ChannelRef 0)) = ChannelRef 0"
    by (simp add: new_port_def)
  from send_resolves_dest [of "IntVal 1" 0 ?cr mesh mesh_tlm0 "RouterRef 0" packet_a "[]" 1
      "new_port (RouterRef 1, ChannelRef 0)" 1 0] a b c
  have "send ?cr mesh mesh_tlm0 (RouterRef 0) (IntVal 1) packet_a [] =
          ?cr 0 (RouterRef (router_ref mesh_tlm0)) (ChannelRef 0) packet_a []"
    by blast
  then show "send ?cr mesh mesh_tlm0 (RouterRef 0) (IntVal 1) packet_a [] = Return (full_fifo, [packet_a])"
    by simp
  have d: "get_router_by_address mesh 9 = None"
    by (simp add: get_router_by_address_def router_list_def mesh_def)
  from send_resolves_dest [of "IntVal 9" 0 ?cr mesh mesh_tlm0 "RouterRef 0" packet_a "[]" 1
      "new_port (RouterRef 1, ChannelRef 0)" 9 0] d
  show "send ?cr mesh mesh_tlm0 (RouterRef 0) (IntVal 9) packet_a [] = Return (tlm_badcall_send, [])"
    by blast
qed

subsection \<open>recv of the ipcore\<close>

text \<open>
  C10: \<^verbatim>\<open>recv\<close> of the ipcore returns \<open>no_error\<close> for every call and overwrites the pending
  value of \<open>incoming_packet\<close>; a second call before the signal commits replaces the pending
  value of the first, and the committed value is untouched.
\<close>

theorem ipcore_recv_always_no_error:
  "ipcore_recv self src dest packet =
     (no_error, self\<lparr>incoming_packet := (incoming_packet self)\<lparr>next_val := packet\<rparr>\<rparr>) \<and>
   fst (ipcore_recv (snd (ipcore_recv self src dest packet)) src' dest' packet') = no_error \<and>
   next_val (incoming_packet (snd (ipcore_recv (snd (ipcore_recv self src dest packet)) src' dest' packet'))) = packet' \<and>
   val (incoming_packet (snd (ipcore_recv (snd (ipcore_recv self src dest packet)) src' dest' packet'))) =
     val (incoming_packet self)"
  by (simp add: ipcore_recv_def)

section \<open>Properties of the router processes\<close>

subsection \<open>The flush process on a failed send\<close>

text \<open>
  The claim C3 as stated fails: with two packets in the output FIFO, the packet popped and
  refused by \<^verbatim>\<open>send\<close> goes behind the other one, not to index 0.
\<close>

theorem flush_failure_front_counterexample:
  "flush_pop mesh_tlm0_two_out 1 = Return (packet_a, mesh_tlm0_one_out) \<and>
   map_option fifo_out (ports_info (flush_after_send mesh_tlm0_one_out 1 packet_a full_fifo) 1)
     = Some [packet_b, packet_a] \<and>
   packet_b \<noteq> packet_a"
  by (simp add: flush_pop_def flush_after_send_def mesh_tlm0_two_out_def mesh_tlm0_one_out_def
      mesh_tlm0_def new_port_def packet_a_def packet_b_def)

lemma flush_pop_Return:
  assumes "flush_pop self port = Return (packet, s1)"
  shows "\<exists>data. ports_info self port = Some data \<and> fifo_out data = packet # tl (fifo_out data) \<and>
           s1 = self\<lparr>ports_info := (ports_info self)(port \<mapsto> data\<lparr>fifo_out := tl (fifo_out data)\<rparr>)\<rparr>"
  using assms by (auto simp: flush_pop_def split: option.splits list.splits)

text \<open>
  C3 (amended): when the flush process has popped a packet and \<^verbatim>\<open>send\<close> returns a code other
  than \<open>no_error\<close>, the packet is appended at the back of the same output FIFO, whatever that
  FIFO holds by then, and no other port changes; without interleaving the FIFO is rotated
  by one. The packet is not discarded.
\<close>

theorem flush_failure_appends_packet:
  assumes "retval \<noteq> no_error"
  shows "(flush_pop self port = Return (packet, s1) \<longrightarrow>
           (\<exists>rest. map_option fifo_out (ports_info self port) = Some (packet # rest) \<and>
              map_option fifo_out (ports_info (flush_after_send s1 port packet retval) port)
                = Some (rest @ [packet]))) \<and>
         (ports_info s2 port = Some d2 \<longrightarrow>
            ports_info (flush_after_send s2 port packet retval) port
              = Some (d2\<lparr>fifo_out := fifo_out d2 @ [packet]\<rparr>)) \<and>
         (a \<noteq> port \<longrightarrow> ports_info (flush_after_send s2 port packet retval) a = ports_info s2 a)"
proof (intro conjI impI)
  assume "flush_pop self port = Return (packet, s1)"
  from flush_pop_Return [OF this] obtain data where
    d: "ports_info self port = Some data" "fifo_out data = packet # tl (fifo_out data)"
      "s1 = self\<lparr>ports_info := (ports_info self)(port \<mapsto> data\<lparr>fifo_out := tl (fifo_out data)\<rparr>)\<rparr>"
    by blast
  have "map_option fifo_out (ports_info (flush_after_send s1 port packet retval) port)
          = Some (tl (fifo_out data) @ [packet])"
    using assms d(3) by (simp add: flush_after_send_def)
  with d(1,2) show "\<exists>rest. map_option fifo_out (ports_info self port) = Some (packet # rest) \<and>
      map_option fifo_out (ports_info (flush_after_send s1 port packet retval) port) = Some (rest @ [packet])"
    by auto
next
  assume "ports_info s2 port = Some d2"
  then show "ports_info (flush_after_send s2 port packet retval) port
              = Some (d2\<lparr>fifo_out := fifo_out d2 @ [packet]\<rparr>)"
    using assms by (simp add: flush_after_send_def)
next
  assume "a \<noteq> port"
  then show "ports_info (flush_after_send s2 port packet retval) a = ports_info s2 a"
    by (simp add: flush_after_send_def split: option.splits)
qed

lemma mesh_flush_pop_two: "flush_pop mesh_tlm0_two_out 1 = Return (packet_a, mesh_tlm0_one_out)"
  by (simp add: flush_pop_def mesh_tlm0_two_out_def mesh_tlm0_one_out_def)

theorem flush_failure_appends_packet_witness:
  "map_option fifo_out (ports_info mesh_tlm0_two_out 1) = Some [packet_a, packet_b] \<and>
   map_option fifo_out (ports_info (flush_after_send mesh_tlm0_one_out 1 packet_a full_fifo) 1)
     = Some [packet_b, packet_a]"
proof -
  have ne: "full_fifo \<noteq> no_error" by simp
  from flush_failure_appends_packet [OF ne, of mesh_tlm0_two_out 1 packet_a mesh_tlm0_one_out mesh_tlm0_one_out
      "the (ports_info mesh_tlm0_one_out 1)" 0] mesh_flush_pop_two
  obtain rest where r: "map_option fifo_out (ports_info mesh_tlm0_two_out 1) = Some (packet_a # rest)"
    "map_option fifo_out (ports_info (flush_after_send mesh_tlm0_one_out 1 packet_a full_fifo) 1)
       = Some (rest @ [packet_a])"
    by blast
  have t: "map_option fifo_out (ports_info mesh_tlm0_two_out 1) = Some [packet_a, packet_b]"
    by (simp add: mesh_tlm0_two_out_def)
  from r(1) t have e: "rest = [packet_b]"
    by (simp only: option.inject list.inject)
  from r(2) have "map_option fifo_out (ports_info (flush_after_send mesh_tlm0_one_out 1 packet_a full_fifo) 1)
     = Some [packet_b, packet_a]"
    unfolding e by (simp only: append.simps)
  with t show ?thesis by (rule conjI)
qed

subsection \<open>The bound of the FIFOs\<close>

text \<open>
  C2: no FIFO of a port should ever hold more than \<open>fifo_len\<close> packets (\<open>fifo_len\<close> is the
  "max number of packets to hold in each port"). The code keeps this bound for the input
  FIFOs only: \<^verbatim>\<open>recv\<close> checks the capacity of \<open>fifo_in\<close>, but \<^verbatim>\<open>routing_loop\<close> appends to
  \<open>fifo_out\<close> without any check. After the run \<open>overflow_events\<close> of router 0 of the mesh,
  with \<open>fifo_len = 1\<close>, the output FIFO of port 1 holds the two packets \<open>packet_a\<close> and
  \<open>packet_b\<close>.
\<close>

theorem fifo_out_exceeds_fifo_len:
  "map_option (\<lambda>s. (map_option fifo_out (ports_info (tlm s) 1), fifo_len (tlm s)))
     (sim_run mesh overflow_events mesh_sim0) = Some (Some [packet_a, packet_b], 1)"
  by code_simp

text \<open>The input FIFOs do keep the bound.\<close>

lemma bounded_lookup:
  "fifo_in_bounded self \<Longrightarrow> ports_info self a = Some d \<Longrightarrow> int (length (fifo_in d)) \<le> fifo_len self"
  by (simp add: fifo_in_bounded_def)

lemma bounded_update:
  "fifo_in_bounded self \<Longrightarrow> int (length (fifo_in d')) \<le> fifo_len self \<Longrightarrow>
     fifo_in_bounded (self\<lparr>ports_info := (ports_info self)(a \<mapsto> d')\<rparr>)"
  by (simp add: fifo_in_bounded_def)

lemma recv_enqueue_bounded:
  assumes "fifo_in_bounded self" and "recv_enqueue self a packet = Return (code, self')"
  shows "fifo_in_bounded self' \<and> fifo_len self' = fifo_len self"
proof (cases "ports_info self a")
  case None
  with assms(2) show ?thesis by (simp add: recv_enqueue_def)
next
  case (Some p)
  show ?thesis
  proof (cases "int (length (fifo_in p)) = fifo_len self")
    case True
    with Some assms show ?thesis by (simp add: recv_enqueue_def)
  next
    case False
    with bounded_lookup [OF assms(1) Some] have "int (length (fifo_in p @ [packet])) \<le> fifo_len self"
      by simp
    then have "fifo_in_bounded (self\<lparr>ports_info := (ports_info self)(a \<mapsto>
              p\<lparr>fifo_in := fifo_in p @ [packet],
                fifo_in_event := (fifo_in_event p)\<lparr>next_val := True\<rparr>\<rparr>)\<rparr>)"
      by (intro bounded_update [OF assms(1)]) simp
    with Some False assms(2) show ?thesis by (auto simp: recv_enqueue_def)
  qed
qed

lemma recv_bounded:
  assumes "fifo_in_bounded self" and "recv G self src dest packet = Return (code, self')"
  shows "fifo_in_bounded self' \<and> fifo_len self' = fifo_len self"
proof (cases "recv_thesrc G self src")
  case (Raise e)
  with assms(2) show ?thesis by (simp add: recv_def)
next
  case (Return r)
  show ?thesis
  proof (cases r)
    case None
    with Return assms show ?thesis by (simp add: recv_def)
  next
    case (Some a)
    with Return assms(2) have "recv_enqueue self a packet = Return (code, self')"
      by (simp add: recv_def)
    from recv_enqueue_bounded [OF assms(1) this] show ?thesis .
  qed
qed

lemma routing_pop_bounded:
  assumes "fifo_in_bounded self" and "routing_pop self port = Return (nextaddr, packet, self')"
  shows "fifo_in_bounded self' \<and> fifo_len self' = fifo_len self"
proof -
  from assms(2) obtain data rest where
    d: "ports_info self port = Some data" "fifo_in data = packet # rest"
    and s: "self' = self\<lparr>ports_info := (ports_info self)(port \<mapsto>
               data\<lparr>fifo_in := rest, fifo_in_event := (fifo_in_event data)\<lparr>next_val := False\<rparr>\<rparr>)\<rparr>"
    by (auto simp: routing_pop_def split: option.splits list.splits outcome.splits)
  from bounded_lookup [OF assms(1) d(1)] d(2) have "int (length rest) \<le> fifo_len self" by simp
  then have "fifo_in_bounded self'"
    unfolding s by (intro bounded_update [OF assms(1)]) simp
  with s show ?thesis by simp
qed

lemma routing_push_bounded:
  assumes "fifo_in_bounded self" and "routing_push self nextaddr packet = Return self'"
  shows "fifo_in_bounded self' \<and> fifo_len self' = fifo_len self"
proof -
  from assms(2) obtain data where
    d: "ports_info self nextaddr = Some data"
    and s: "self' = self\<lparr>ports_info := (ports_info self)(nextaddr \<mapsto>
            data\<lparr>fifo_out := fifo_out data @ [packet],
              fifo_out_event := (fifo_out_event data)\<lparr>next_val := True\<rparr>\<rparr>)\<rparr>"
    by (auto simp: routing_push_def split: option.splits)
  from bounded_lookup [OF assms(1) d] have "fifo_in_bounded self'"
    unfolding s by (intro bounded_update [OF assms(1)]) simp
  with s show ?thesis by simp
qed

lemma flush_pop_bounded:
  assumes "fifo_in_bounded self" and "flush_pop self port = Return (packet, self')"
  shows "fifo_in_bounded self' \<and> fifo_len self' = fifo_len self"
proof -
  from assms(2) obtain data rest where
    d: "ports_info self port = Some data"
    and s: "self' = self\<lparr>ports_info := (ports_info self)(port \<mapsto> data\<lparr>fifo_out := rest\<rparr>)\<rparr>"
    by (auto simp: flush_pop_def split: option.splits list.splits)
  from bounded_lookup [OF assms(1) d] have "fifo_in_bounded self'"
    unfolding s by (intro bounded_update [OF assms(1)]) simp
  with s show ?thesis by simp
qed

lemma flush_after_send_bounded:
  assumes "fifo_in_bounded self"
  shows "fifo_in_bounded (flush_after_send self port packet retval) \<and>
         fifo_len (flush_after_send self port packet retval) = fifo_len self"
proof (cases "ports_info self port")
  case None
  with assms show ?thesis by (simp add: flush_after_send_def)
next
  case (Some data)
  from bounded_lookup [OF assms Some]
  have 1: "fifo_in_bounded (self\<lparr>ports_info := (ports_info self)(port \<mapsto>
                 data\<lparr>fifo_out_event := (fifo_out_event data)\<lparr>next_val := False\<rparr>\<rparr>)\<rparr>)"
    by (intro bounded_update [OF assms]) simp
  from bounded_lookup [OF assms Some]
  have 2: "fifo_in_bounded (self\<lparr>ports_info := (ports_info self)(port \<mapsto>
                 data\<lparr>fifo_out := fifo_out data @ [packet]\<rparr>)\<rparr>)"
    by (intro bounded_update [OF assms]) simp
  from 1 2 Some show ?thesis by (simp add: flush_after_send_def)
qed

lemma sim_step_bounded:
  assumes "fifo_in_bounded (tlm s)" and "sim_step G e s = Some s'"
  shows "fifo_in_bounded (tlm s') \<and> fifo_len (tlm s') = fifo_len (tlm s)"
proof (cases e)
  case (EvRecv src dest packet)
  with assms(2) obtain code self' where
    "recv G (tlm s) src dest packet = Return (code, self')" and "s' = s\<lparr>tlm := self'\<rparr>"
    by (auto split: outcome.splits)
  with recv_bounded [OF assms(1), of G src dest packet code self'] show ?thesis by simp
next
  case (EvRoutingPop port)
  with assms(2) obtain nextaddr packet self' where
    "routing_pop (tlm s) port = Return (nextaddr, packet, self')"
    and "s' = s\<lparr>tlm := self', routing_held := Some (nextaddr, packet)\<rparr>"
    by (auto split: outcome.splits option.splits if_splits)
  with routing_pop_bounded [OF assms(1), of port nextaddr packet self'] show ?thesis by simp
next
  case EvRoutingPush
  with assms(2) obtain nextaddr packet self' where
    "routing_push (tlm s) nextaddr packet = Return self'"
    and "s' = s\<lparr>tlm := self', routing_held := None\<rparr>"
    by (auto split: outcome.splits option.splits)
  with routing_push_bounded [OF assms(1), of nextaddr packet self'] show ?thesis by simp
next
  case (EvFlushPop port)
  with assms(2) obtain packet self' where
    "flush_pop (tlm s) port = Return (packet, self')"
    and "s' = s\<lparr>tlm := self', flush_held := Some (port, packet)\<rparr>"
    by (auto split: outcome.splits option.splits if_splits)
  with flush_pop_bounded [OF assms(1), of port packet self'] show ?thesis by simp
next
  case (EvFlushSend retval)
  with assms(2) obtain port packet where
    "s' = s\<lparr>tlm := flush_after_send (tlm s) port packet retval, flush_held := None\<rparr>"
    by (auto split: option.splits)
  with flush_after_send_bounded [OF assms(1), of port packet retval] show ?thesis by simp
qed

lemma sim_run_bounded:
  "fifo_in_bounded (tlm s) \<Longrightarrow> sim_run G es s = Some s' \<Longrightarrow>
     fifo_in_bounded (tlm s') \<and> fifo_len (tlm s') = fifo_len (tlm s)"
proof (induction es arbitrary: s)
  case Nil
  then show ?case by simp
next
  case (Cons e es)
  from Cons.prems(2) obtain s1 where s1: "sim_step G e s = Some s1" "sim_run G es s1 = Some s'"
    by (auto split: option.splits)
  from sim_step_bounded [OF Cons.prems(1) s1(1)]
  have b: "fifo_in_bounded (tlm s1)" and l: "fifo_len (tlm s1) = fifo_len (tlm s)" by simp_all
  from Cons.IH [OF b s1(2)] l show ?case by simp
qed

text \<open>
  If no input FIFO holds more than \<open>fifo_len\<close> packets at the start (as after construction,
  when all are empty and \<open>fifo_len\<close> is not negative), then none does after any sequence of
  \<^verbatim>\<open>recv\<close> calls and steps of the routing and the flush process; \<open>fifo_len\<close> itself never
  changes.
\<close>

theorem fifo_in_never_exceeds_fifo_len:
  assumes "\<forall>a p. ports_info (tlm s0) a = Some p \<longrightarrow> int (length (fifo_in p)) \<le> fifo_len (tlm s0)"
    and "sim_run G es s0 = Some s"
    and "ports_info (tlm s) a = Some p"
  shows "int (length (fifo_in p)) \<le> fifo_len (tlm s) \<and> fifo_len (tlm s) = fifo_len (tlm s0)"
proof -
  from assms(1) have "fifo_in_bounded (tlm s0)" by (simp add: fifo_in_bounded_def)
  from sim_run_bounded [OF this assms(2)]
  have b: "fifo_in_bounded (tlm s)" and l: "fifo_len (tlm s) = fifo_len (tlm s0)" by simp_all
  from bounded_lookup [OF b assms(3)] l show ?thesis by simp
qed

lemma mesh_sim0_empty:
  "\<forall>a p. ports_info (tlm mesh_sim0) a = Some p \<longrightarrow> int (length (fifo_in p)) \<le> fifo_len (tlm mesh_sim0)"
  by (auto simp: mesh_sim0_def mesh_tlm0_def new_port_def)

lemma mesh_recv_a:
  "recv mesh mesh_tlm0 (ChannelRef 0) (RouterRef 0) packet_a = Return (no_error, mesh_tlm0_full)"
  by (simp add: recv_def recv_enqueue_def mesh_thesrc_ch0 mesh_port1 mesh_tlm0_full_def new_port_def)
    (simp add: mesh_tlm0_def)

lemma mesh_recv_b:
  "recv mesh mesh_tlm0_full (ChannelRef 0) (RouterRef 0) packet_b = Return (full_fifo, mesh_tlm0_full)"
proof -
  have "ports_info mesh_tlm0_full 1 = Some ((new_port (RouterRef 1, ChannelRef 0))\<lparr>fifo_in := [packet_a],
            fifo_in_event := \<lparr>val = False, next_val = True\<rparr>\<rparr>)"
    by (simp add: mesh_tlm0_full_def)
  moreover have "fifo_len mesh_tlm0_full = 1"
    by (simp add: mesh_tlm0_full_def mesh_tlm0_def)
  ultimately show ?thesis
    by (simp add: recv_def recv_enqueue_def mesh_full_thesrc)
qed

lemma mesh_recv_twice:
  "sim_run mesh [EvRecv (ChannelRef 0) (RouterRef 0) packet_a, EvRecv (ChannelRef 0) (RouterRef 0) packet_b]
     mesh_sim0 = Some (mesh_sim0\<lparr>tlm := mesh_tlm0_full\<rparr>)"
proof -
  have 1: "sim_step mesh (EvRecv (ChannelRef 0) (RouterRef 0) packet_a) mesh_sim0
             = Some (mesh_sim0\<lparr>tlm := mesh_tlm0_full\<rparr>)"
    using mesh_recv_a by (simp add: mesh_sim0_def)
  have 2: "sim_step mesh (EvRecv (ChannelRef 0) (RouterRef 0) packet_b) (mesh_sim0\<lparr>tlm := mesh_tlm0_full\<rparr>)
             = Some (mesh_sim0\<lparr>tlm := mesh_tlm0_full\<rparr>)"
    using mesh_recv_b by (simp add: mesh_sim0_def)
  show ?thesis
    by (simp only: sim_run.simps 1 2 option.simps)
qed

theorem fifo_in_never_exceeds_fifo_len_witness:
  "length (fifo_in ((new_port (RouterRef 1, ChannelRef 0))\<lparr>fifo_in := [packet_a],
            fifo_in_event := \<lparr>val = False, next_val = True\<rparr>\<rparr>)) = 1 \<and>
   int (length (fifo_in ((new_port (RouterRef 1, ChannelRef 0))\<lparr>fifo_in := [packet_a],
            fifo_in_event := \<lparr>val = False, next_val = True\<rparr>\<rparr>)))
     \<le> fifo_len (tlm (mesh_sim0\<lparr>tlm := mesh_tlm0_full\<rparr>))"
proof -
  have p: "ports_info (tlm (mesh_sim0\<lparr>tlm := mesh_tlm0_full\<rparr>)) 1 =
      Some ((new_port (RouterRef 1, ChannelRef 0))\<lparr>fifo_in := [packet_a],
            fifo_in_event := \<lparr>val = False, next_val = True\<rparr>\<rparr>)"
    by (simp add: mesh_tlm0_full_def)
  from fifo_in_never_exceeds_fifo_len [OF mesh_sim0_empty mesh_recv_twice p]
  show ?thesis by simp
qed

section \<open>Properties of the routing table\<close>

subsection \<open>The table and the TLM model of router 0 of the mesh\<close>







subsection \<open>Grouping by the first hop\<close>

lemma first_occurrences_snoc:
  "first_occurrences (xs @ [x]) =
     (if x \<in> set xs then first_occurrences xs else first_occurrences xs @ [x])"
  by (simp add: first_occurrences_def)

lemma set_first_occurrences: "set (first_occurrences xs) = set xs"
  by (simp add: first_occurrences_def)

lemma distinct_first_occurrences: "distinct (first_occurrences xs)"
  by (simp add: first_occurrences_def)

lemma py_getitem_1:
  "py_getitem route 1 = (if 2 \<le> length route then Return (second_node route) else Raise IndexError)"
  by (auto simp: py_getitem_def second_node_def)

lemma list_ex_group:
  "list_ex (\<lambda>e. h = nexthop e) (group_by_first_hop prev) = (h \<in> second_node ` set prev)"
  by (auto simp: group_by_first_hop_def list_ex_iff set_first_occurrences)

lemma add_route_group:
  assumes "2 \<le> length route"
  shows "add_route route (group_by_first_hop prev) = Return (group_by_first_hop (prev @ [route]))"
proof (cases "second_node route \<in> second_node ` set prev")
  case True
  then have fo: "first_occurrences (map second_node (prev @ [route])) = first_occurrences (map second_node prev)"
    by (simp add: first_occurrences_snoc)
  have "map (\<lambda>e. if second_node route = nexthop e then e\<lparr>paths := paths e @ [route]\<rparr> else e)
          (group_by_first_hop prev) = group_by_first_hop (prev @ [route])"
    unfolding group_by_first_hop_def fo by (auto simp: comp_def)
  with True assms show ?thesis
    by (simp add: add_route_def py_getitem_1 list_ex_group)
next
  case False
  then have fo: "first_occurrences (map second_node (prev @ [route])) =
                   first_occurrences (map second_node prev) @ [second_node route]"
    by (simp add: first_occurrences_snoc)
  from False have "\<forall>r \<in> set prev. second_node r \<noteq> second_node route"
    by (metis imageI)
  then have nil: "filter (\<lambda>r. second_node r = second_node route) prev = []"
    by (simp add: filter_empty_conv)
  have "map (\<lambda>e. if second_node route = nexthop e then e\<lparr>paths := paths e @ [route]\<rparr> else e)
          (group_by_first_hop prev) @ [\<lparr>nexthop = second_node route, paths = [route]\<rparr>]
        = group_by_first_hop (prev @ [route])"
    unfolding group_by_first_hop_def fo using False
    by (auto simp: comp_def nil set_first_occurrences)
  with False assms show ?thesis
    by (simp add: add_route_def py_getitem_1 list_ex_group)
qed

lemma add_routes_group:
  "add_routes routes (group_by_first_hop prev) = Return entries \<Longrightarrow>
     entries = group_by_first_hop (prev @ routes) \<and> (\<forall>route \<in> set routes. 2 \<le> length route)"
proof (induction routes arbitrary: prev)
  case Nil
  then show ?case by simp
next
  case (Cons route routes)
  show ?case
  proof (cases "2 \<le> length route")
    case True
    from Cons.prems add_route_group [OF True, of "prev"]
    have "add_routes routes (group_by_first_hop (prev @ [route])) = Return entries"
      by simp
    from Cons.IH [OF this] True show ?thesis by simp
  next
    case False
    with Cons.prems show ?thesis
      by (simp add: add_route_def py_getitem_1)
  qed
qed

lemma add_routes_Return:
  assumes "add_routes routes [] = Return entries"
  shows "entries = group_by_first_hop routes" and "\<forall>route \<in> set routes. 2 \<le> length route"
proof -
  have "group_by_first_hop [] = []"
    by (simp add: group_by_first_hop_def first_occurrences_def)
  with assms add_routes_group [of routes "[]" entries] show "entries = group_by_first_hop routes"
    and "\<forall>route \<in> set routes. 2 \<le> length route"
    by simp_all
qed

lemma update_routes_loop_entries:
  "update_routes_loop G self ds ri0 = Some (Return ri) \<Longrightarrow>
     (\<forall>d \<in> set ds. d \<noteq> self \<longrightarrow>
        (\<exists>routes. all_shortest_paths G self d = Some (Return routes) \<and>
           ri d = Some (group_by_first_hop (map (map (router_address G)) routes)))) \<and>
     (\<forall>d. d \<notin> set ds \<or> d = self \<longrightarrow> ri d = ri0 d)"
proof (induction ds arbitrary: ri0)
  case Nil
  then show ?case by simp
next
  case (Cons d0 ds)
  show ?case
  proof (cases "d0 = self")
    case True
    with Cons.prems have "update_routes_loop G self ds ri0 = Some (Return ri)" by simp
    from Cons.IH [OF this] True show ?thesis by auto
  next
    case False
    with Cons.prems obtain routes es where
      asp: "all_shortest_paths G self d0 = Some (Return routes)"
      and ar: "add_routes (map (map (router_address G)) routes) [] = Return es"
      and rec: "update_routes_loop G self ds (ri0(d0 \<mapsto> es)) = Some (Return ri)"
      by (auto split: option.splits outcome.splits)
    from add_routes_Return(1) [OF ar] have es: "es = group_by_first_hop (map (map (router_address G)) routes)" .
    from Cons.IH [OF rec] have
      ih1: "\<forall>d \<in> set ds. d \<noteq> self \<longrightarrow>
        (\<exists>routes. all_shortest_paths G self d = Some (Return routes) \<and>
           ri d = Some (group_by_first_hop (map (map (router_address G)) routes)))"
      and ih2: "\<forall>d. d \<notin> set ds \<or> d = self \<longrightarrow> ri d = (ri0(d0 \<mapsto> es)) d"
      by blast+
    have d0: "\<exists>routes. all_shortest_paths G self d0 = Some (Return routes) \<and>
           ri d0 = Some (group_by_first_hop (map (map (router_address G)) routes))"
    proof (cases "d0 \<in> set ds")
      case True
      with ih1 False show ?thesis by blast
    next
      case False
      with ih2 have "ri d0 = Some es" by simp
      with asp es show ?thesis by simp
    qed
    have "\<forall>d. d \<notin> set (d0 # ds) \<or> d = self \<longrightarrow> ri d = ri0 d"
      using ih2 False by auto
    with ih1 d0 show ?thesis by auto
  qed
qed












section \<open>Routing correctness\<close>

subsection \<open>Levels and walks\<close>

lemma lev_0: "lev adj b 0 = {b}"
  by (simp add: lev_def)

lemma reach_0: "reach adj b 0 = {b}"
  by (simp add: reach_def)

lemma lev_Suc: "lev adj b (Suc n) = {w. \<exists>v \<in> lev adj b n. w \<in> set (adj v)} - reach adj b n"
  by (simp add: lev_def reach_def Let_def)

lemma reach_Suc: "reach adj b (Suc n) = reach adj b n \<union> lev adj b (Suc n)"
  by (simp add: lev_def reach_def Let_def)

lemma lev_subset_reach: "lev adj b n \<subseteq> reach adj b n"
  by (cases n) (simp_all add: lev_0 reach_0 reach_Suc)

lemma reach_mono: "m \<le> n \<Longrightarrow> reach adj b m \<subseteq> reach adj b n"
  by (induction n) (auto simp: reach_Suc le_Suc_eq)

lemma reach_iff: "w \<in> reach adj b n \<longleftrightarrow> (\<exists>k \<le> n. w \<in> lev adj b k)"
proof (induction n)
  case 0
  then show ?case by (simp add: reach_0 lev_0)
next
  case (Suc n)
  then show ?case by (auto simp: reach_Suc le_Suc_eq)
qed

lemma lev_disjoint:
  assumes "w \<in> lev adj b m" and "w \<in> lev adj b n"
  shows "m = n"
proof -
  have less: "\<And>k l. k < l \<Longrightarrow> w \<in> lev adj b k \<Longrightarrow> w \<in> lev adj b l \<Longrightarrow> False"
  proof -
    fix k l :: nat
    assume kl: "k < l" and wk: "w \<in> lev adj b k" and wl: "w \<in> lev adj b l"
    from kl obtain l' where l: "l = Suc l'" by (cases l) auto
    with kl have "k \<le> l'" by simp
    with wk have "w \<in> reach adj b l'" by (auto simp: reach_iff)
    with wl l show False by (simp add: lev_Suc)
  qed
  show ?thesis
    using less [of m n] less [of n m] assms by (meson nat_neq_iff)
qed

lemma lev_step:
  assumes "v \<in> lev adj b n" and "w \<in> set (adj v)"
  shows "w \<in> reach adj b (Suc n)"
  using assms by (auto simp: reach_Suc lev_Suc)

lemma lev_Suc_pred:
  assumes "w \<in> lev adj b (Suc n)"
  shows "\<exists>v \<in> lev adj b n. w \<in> set (adj v)"
  using assms by (auto simp: lev_Suc)

lemma lev_empty_Suc: "lev adj b n = {} \<Longrightarrow> lev adj b (Suc n) = {}"
  by (simp add: lev_Suc)

lemma lev_empty_ge: "lev adj b n = {} \<Longrightarrow> n \<le> m \<Longrightarrow> lev adj b m = {}"
  by (induction m) (auto simp: le_Suc_eq lev_empty_Suc)

lemma walk_snoc: "xs \<noteq> [] \<Longrightarrow> walk adj (xs @ [y]) = (walk adj xs \<and> y \<in> set (adj (last xs)))"
  by (induction adj xs rule: walk.induct) auto

lemma walk_nonempty: "walk adj xs \<Longrightarrow> xs \<noteq> []"
  by auto

lemma lev_walk:
  "w \<in> lev adj b n \<Longrightarrow> \<exists>xs. walk adj xs \<and> hd xs = b \<and> last xs = w \<and> length xs = Suc n"
proof (induction n arbitrary: w)
  case 0
  then have "walk adj [b] \<and> hd [b] = b \<and> last [b] = w \<and> length [b] = Suc 0"
    by (simp add: lev_0)
  then show ?case by blast
next
  case (Suc n)
  from lev_Suc_pred [OF Suc.prems] obtain v where v: "v \<in> lev adj b n" "w \<in> set (adj v)" by blast
  from Suc.IH [OF v(1)] obtain xs where
    xs: "walk adj xs" "hd xs = b" "last xs = v" "length xs = Suc n" by blast
  from xs(1) have ne: "xs \<noteq> []" by auto
  have "walk adj (xs @ [w]) \<and> hd (xs @ [w]) = b \<and> last (xs @ [w]) = w \<and> length (xs @ [w]) = Suc (Suc n)"
    using xs v(2) ne by (simp add: walk_snoc)
  then show ?case by blast
qed

lemma walk_reach:
  "walk adj xs \<Longrightarrow> hd xs = b \<Longrightarrow> length xs = Suc n \<Longrightarrow> last xs \<in> reach adj b n"
proof (induction n arbitrary: xs)
  case 0
  then obtain x where "xs = [x]" by (cases xs) auto
  with 0 show ?case by (simp add: reach_0)
next
  case (Suc n)
  from Suc.prems(3) obtain ys y where xs: "xs = ys @ [y]" and len: "length ys = Suc n"
    by (metis length_Suc_conv_rev)
  from len have ne: "ys \<noteq> []" by auto
  from Suc.prems(1) xs ne have w: "walk adj ys" and e: "y \<in> set (adj (last ys))"
    by (simp_all add: walk_snoc)
  from Suc.prems(2) xs ne have "hd ys = b" by simp
  from Suc.IH [OF w this len] obtain k where k: "k \<le> n" "last ys \<in> lev adj b k"
    by (auto simp: reach_iff)
  from lev_step [OF k(2) e] have "y \<in> reach adj b (Suc k)" .
  with k(1) reach_mono [of "Suc k" "Suc n" adj b] have "y \<in> reach adj b (Suc n)" by auto
  with xs show ?case by simp
qed

lemma lev_least:
  assumes "w \<in> lev adj b n"
  shows "(LEAST m. \<exists>xs. walk adj xs \<and> hd xs = b \<and> last xs = w \<and> length xs = Suc m) = n"
proof (rule Least_equality)
  from lev_walk [OF assms] show "\<exists>xs. walk adj xs \<and> hd xs = b \<and> last xs = w \<and> length xs = Suc n" .
next
  fix m
  assume "\<exists>xs. walk adj xs \<and> hd xs = b \<and> last xs = w \<and> length xs = Suc m"
  then obtain xs where "walk adj xs" "hd xs = b" "last xs = w" "length xs = Suc m" by blast
  from walk_reach [OF this(1,2,4)] this(3) obtain k where "k \<le> m" "w \<in> lev adj b k"
    by (auto simp: reach_iff)
  with lev_disjoint [OF assms this(2)] show "n \<le> m" by simp
qed

lemma lev_subset_closed:
  assumes "b \<in> N" and "\<forall>v \<in> N. set (adj v) \<subseteq> N"
  shows "lev adj b n \<subseteq> N"
proof (induction n)
  case 0
  with assms(1) show ?case by (simp add: lev_0)
next
  case (Suc n)
  with assms(2) show ?case by (auto simp: lev_Suc)
qed

lemma walk_closed:
  assumes "\<forall>v \<in> N. set (adj v) \<subseteq> N"
  shows "walk adj xs \<Longrightarrow> hd xs \<in> N \<Longrightarrow> set xs \<subseteq> N"
  using assms by (induction adj xs rule: walk.induct) auto

lemma walk_append:
  "walk adj xs \<Longrightarrow> walk adj ys \<Longrightarrow> hd ys \<in> set (adj (last xs)) \<Longrightarrow> walk adj (xs @ ys)"
proof (induction adj xs rule: walk.induct)
  case (1 adj)
  then show ?case by simp
next
  case (2 adj x)
  then show ?case by (cases ys) auto
next
  case (3 adj x y zs)
  then show ?case by auto
qed

lemma walk_rev:
  assumes sym: "\<forall>v \<in> N. \<forall>w \<in> set (adj v). w \<in> N \<and> v \<in> set (adj w)"
  shows "walk adj xs \<Longrightarrow> hd xs \<in> N \<Longrightarrow> walk adj (rev xs)"
proof (induction xs)
  case Nil
  then show ?case by simp
next
  case (Cons x xs)
  show ?case
  proof (cases xs)
    case Nil
    then show ?thesis by simp
  next
    case (Cons y zs)
    from Cons.prems(1) Cons have e: "y \<in> set (adj x)" and w: "walk adj xs" by simp_all
    from Cons.prems(2) have xN: "x \<in> N" by simp
    from sym xN e have yN: "y \<in> N" by blast
    from sym xN e have bk: "x \<in> set (adj y)" by blast
    from yN Cons have "hd xs \<in> N" by simp
    from Cons.IH [OF w this] have r: "walk adj (rev xs)" .
    have s: "walk adj [x]" by simp
    have "last (rev xs) = y" using Cons by simp
    with bk have h: "hd [x] \<in> set (adj (last (rev xs)))" by simp
    from walk_append [OF r s h] show ?thesis by simp
  qed
qed

lemma walk_level:
  assumes "walk adj xs" and "hd xs = b"
  shows "\<exists>n. last xs \<in> lev adj b n"
proof -
  from assms(1) obtain n where "length xs = Suc n" by (cases xs) auto
  from walk_reach [OF assms this] show ?thesis by (auto simp: reach_iff)
qed

subsection \<open>The breadth-first search\<close>

lemma bfs_inv_level_le:
  assumes "bfs_inv adj b L nl sp" and "sp w = Some (l, ps)"
  shows "l \<le> L"
proof -
  from assms have "w \<in> reach adj b L" and "w \<in> lev adj b l"
    by (auto simp: bfs_inv_def entry_ok_def)
  then obtain k where "k \<le> L" "w \<in> lev adj b k" by (auto simp: reach_iff)
  with lev_disjoint [OF \<open>w \<in> lev adj b l\<close> this(2)] show ?thesis by simp
qed

lemma visit_inv_init:
  assumes "bfs_inv adj b L nl sp"
  shows "visit_inv adj b L sp {} [] sp"
  using assms by (auto simp: visit_inv_def bfs_inv_def)

lemma visit_inv_step:
  assumes base: "bfs_inv adj b L nl0 sp"
    and inv: "visit_inv adj b L sp E nl sp'"
  shows "visit_inv adj b L sp (insert (v, w) E) (fst (bfs_visit (Suc L) v w (nl, sp')))
           (snd (bfs_visit (Suc L) v w (nl, sp')))"
proof (cases "sp' w")
  case None
  have notreach: "w \<notin> reach adj b L"
  proof
    assume r: "w \<in> reach adj b L"
    with inv have "sp' w = sp w" by (simp add: visit_inv_def)
    moreover from r base have "w \<in> dom sp" by (simp add: bfs_inv_def)
    ultimately show False using None by auto
  qed
  have res: "bfs_visit (Suc L) v w (nl, sp') = (nl @ [w], sp'(w \<mapsto> (Suc L, [v])))"
    using None by (simp add: bfs_visit_def)
  have 1: "\<forall>u \<in> reach adj b L. (sp'(w \<mapsto> (Suc L, [v]))) u = sp u"
    using inv notreach by (auto simp: visit_inv_def)
  have 2: "set (nl @ [w]) = dom (sp'(w \<mapsto> (Suc L, [v]))) - reach adj b L"
    using inv notreach by (auto simp: visit_inv_def)
  have 3: "\<forall>u \<in> set (nl @ [w]). \<exists>qs. (sp'(w \<mapsto> (Suc L, [v]))) u = Some (Suc L, qs) \<and> qs \<noteq> [] \<and>
               (\<forall>x \<in> set qs. (x, u) \<in> insert (v, w) E)"
  proof
    fix u assume u: "u \<in> set (nl @ [w])"
    show "\<exists>qs. (sp'(w \<mapsto> (Suc L, [v]))) u = Some (Suc L, qs) \<and> qs \<noteq> [] \<and>
               (\<forall>x \<in> set qs. (x, u) \<in> insert (v, w) E)"
    proof (cases "u = w")
      case True
      then show ?thesis by simp
    next
      case False
      with u have "u \<in> set nl" by simp
      with inv obtain qs where "sp' u = Some (Suc L, qs)" "qs \<noteq> []" "\<forall>x \<in> set qs. (x, u) \<in> E"
        unfolding visit_inv_def by blast
      with False show ?thesis by auto
    qed
  qed
  have 4: "\<forall>e \<in> insert (v, w) E. snd e \<in> dom (sp'(w \<mapsto> (Suc L, [v])))"
    using inv by (auto simp: visit_inv_def)
  show ?thesis
    unfolding res using 1 2 3 4 by (simp add: visit_inv_def)
next
  case (Some lp)
  obtain l ps where lp: "lp = (l, ps)" by (cases lp)
  show ?thesis
  proof (cases "l = Suc L")
    case True
    have notreach: "w \<notin> reach adj b L"
    proof
      assume r: "w \<in> reach adj b L"
      with inv have "sp w = Some (l, ps)" using Some lp by (simp add: visit_inv_def)
      from bfs_inv_level_le [OF base this] True show False by simp
    qed
    with inv Some have wnl: "w \<in> set nl" by (auto simp: visit_inv_def)
    have res: "bfs_visit (Suc L) v w (nl, sp') = (nl, sp'(w \<mapsto> (l, ps @ [v])))"
      using Some lp True by (simp add: bfs_visit_def)
    have 1: "\<forall>u \<in> reach adj b L. (sp'(w \<mapsto> (l, ps @ [v]))) u = sp u"
      using inv notreach by (auto simp: visit_inv_def)
    have 2: "set nl = dom (sp'(w \<mapsto> (l, ps @ [v]))) - reach adj b L"
      using inv wnl by (auto simp: visit_inv_def)
    have 3: "\<forall>u \<in> set nl. \<exists>qs. (sp'(w \<mapsto> (l, ps @ [v]))) u = Some (Suc L, qs) \<and> qs \<noteq> [] \<and>
               (\<forall>x \<in> set qs. (x, u) \<in> insert (v, w) E)"
    proof
      fix u assume u: "u \<in> set nl"
      show "\<exists>qs. (sp'(w \<mapsto> (l, ps @ [v]))) u = Some (Suc L, qs) \<and> qs \<noteq> [] \<and>
               (\<forall>x \<in> set qs. (x, u) \<in> insert (v, w) E)"
      proof (cases "u = w")
        case True
        from inv wnl obtain qs where "sp' w = Some (Suc L, qs)" "\<forall>x \<in> set qs. (x, w) \<in> E"
          unfolding visit_inv_def by blast
        with Some lp have "\<forall>x \<in> set ps. (x, w) \<in> E" by simp
        with True \<open>l = Suc L\<close> show ?thesis by auto
      next
        case False
        with inv u show ?thesis by (auto simp: visit_inv_def)
      qed
    qed
    have 4: "\<forall>e \<in> insert (v, w) E. snd e \<in> dom (sp'(w \<mapsto> (l, ps @ [v])))"
      using inv by (auto simp: visit_inv_def)
    show ?thesis
      unfolding res using 1 2 3 4 by (simp add: visit_inv_def)
  next
    case False
    have res: "bfs_visit (Suc L) v w (nl, sp') = (nl, sp')"
      using Some lp False by (simp add: bfs_visit_def)
    have 3: "\<forall>u \<in> set nl. \<exists>qs. sp' u = Some (Suc L, qs) \<and> qs \<noteq> [] \<and>
               (\<forall>x \<in> set qs. (x, u) \<in> insert (v, w) E)"
    proof
      fix u assume u: "u \<in> set nl"
      with inv obtain qs where "sp' u = Some (Suc L, qs)" "qs \<noteq> []" "\<forall>x \<in> set qs. (x, u) \<in> E"
        unfolding visit_inv_def by blast
      then show "\<exists>qs. sp' u = Some (Suc L, qs) \<and> qs \<noteq> [] \<and>
               (\<forall>x \<in> set qs. (x, u) \<in> insert (v, w) E)" by auto
    qed
    have 4: "\<forall>e \<in> insert (v, w) E. snd e \<in> dom sp'"
      using inv Some by (auto simp: visit_inv_def)
    from inv have 1: "\<forall>u \<in> reach adj b L. sp' u = sp u" and 2: "set nl = dom sp' - reach adj b L"
      by (simp_all add: visit_inv_def)
    show ?thesis
      unfolding res using 1 2 3 4 by (simp add: visit_inv_def)
  qed
qed

lemma set_level_edges: "set (level_edges adj vs) = {(v, w). v \<in> set vs \<and> w \<in> set (adj v)}"
  by (auto simp: level_edges_def)

lemma fold_inner_edges:
  "fold (f v) ws st = fold (\<lambda>e. f (fst e) (snd e)) (map (Pair v) ws) st"
  by (induction ws arbitrary: st) simp_all

lemma fold_level_edges:
  "fold (\<lambda>v st. fold (f v) (adj v) st) vs st = fold (\<lambda>e. f (fst e) (snd e)) (level_edges adj vs) st"
proof (induction vs arbitrary: st)
  case Nil
  then show ?case by (simp add: level_edges_def)
next
  case (Cons v vs)
  have "level_edges adj (v # vs) = map (Pair v) (adj v) @ level_edges adj vs"
    by (simp add: level_edges_def)
  then show ?case
    using Cons.IH fold_inner_edges [of f v "adj v" st] by simp
qed

lemma visit_inv_fold:
  assumes base: "bfs_inv adj b L nl0 sp"
  shows "visit_inv adj b L sp E nl sp' \<Longrightarrow>
     visit_inv adj b L sp (E \<union> set es)
       (fst (fold (\<lambda>e. bfs_visit (Suc L) (fst e) (snd e)) es (nl, sp')))
       (snd (fold (\<lambda>e. bfs_visit (Suc L) (fst e) (snd e)) es (nl, sp')))"
proof (induction es arbitrary: E nl sp')
  case Nil
  then show ?case by simp
next
  case (Cons e es)
  obtain v w where e: "e = (v, w)" by (cases e)
  obtain nl1 sp1 where r: "bfs_visit (Suc L) v w (nl, sp') = (nl1, sp1)"
    by (cases "bfs_visit (Suc L) v w (nl, sp')")
  from visit_inv_step [OF base Cons.prems, of v w] r
  have "visit_inv adj b L sp (insert (v, w) E) nl1 sp1" by simp
  from Cons.IH [OF this] have
    "visit_inv adj b L sp (insert (v, w) E \<union> set es)
       (fst (fold (\<lambda>e. bfs_visit (Suc L) (fst e) (snd e)) es (nl1, sp1)))
       (snd (fold (\<lambda>e. bfs_visit (Suc L) (fst e) (snd e)) es (nl1, sp1)))" .
  moreover have "insert (v, w) E \<union> set es = E \<union> set (e # es)" using e by auto
  ultimately show ?case using e r by simp
qed

lemma bfs_level_inv:
  assumes base: "bfs_inv adj b L nl sp"
    and res: "bfs_level adj (Suc L) nl sp = (nl', sp')"
  shows "bfs_inv adj b (Suc L) nl' sp'"
proof -
  let ?E = "set (level_edges adj nl)"
  have E: "?E = {(v, w). v \<in> lev adj b L \<and> w \<in> set (adj v)}"
    using base by (simp add: set_level_edges bfs_inv_def)
  have f: "bfs_level adj (Suc L) nl sp =
      fold (\<lambda>e. bfs_visit (Suc L) (fst e) (snd e)) (level_edges adj nl) ([], sp)"
    unfolding bfs_level_def by (rule fold_level_edges)
  from f res have r: "fold (\<lambda>e. bfs_visit (Suc L) (fst e) (snd e)) (level_edges adj nl) ([], sp) = (nl', sp')"
    by simp
  from visit_inv_fold [OF base visit_inv_init [OF base], of "level_edges adj nl"]
  have vi: "visit_inv adj b L sp ?E nl' sp'" unfolding r by simp
  from vi have keep: "\<forall>w \<in> reach adj b L. sp' w = sp w"
    and new: "set nl' = dom sp' - reach adj b L"
    and ent: "\<forall>w \<in> set nl'. \<exists>ps. sp' w = Some (Suc L, ps) \<and> ps \<noteq> [] \<and> (\<forall>v \<in> set ps. (v, w) \<in> ?E)"
    and cov: "\<forall>e \<in> ?E. snd e \<in> dom sp'"
    by (simp_all add: visit_inv_def)
  from base have dom: "dom sp = reach adj b L"
    and ok: "\<forall>w l ps. sp w = Some (l, ps) \<longrightarrow> entry_ok adj b w l ps"
    by (simp_all add: bfs_inv_def)
  have sub: "set nl' \<subseteq> lev adj b (Suc L)"
  proof
    fix w assume w: "w \<in> set nl'"
    with ent obtain ps where ps: "ps \<noteq> []" "\<forall>v \<in> set ps. (v, w) \<in> ?E" by blast
    then obtain v where "(v, w) \<in> ?E" by (cases ps) auto
    with E have "v \<in> lev adj b L" "w \<in> set (adj v)" by auto
    moreover from w new have "w \<notin> reach adj b L" by simp
    ultimately show "w \<in> lev adj b (Suc L)" by (auto simp: lev_Suc)
  qed
  have sup: "lev adj b (Suc L) \<subseteq> set nl'"
  proof
    fix w assume w: "w \<in> lev adj b (Suc L)"
    then obtain v where "v \<in> lev adj b L" "w \<in> set (adj v)" by (auto simp: lev_Suc)
    with E have "(v, w) \<in> ?E" by simp
    with cov have "w \<in> dom sp'" by force
    moreover from w have "w \<notin> reach adj b L" by (simp add: lev_Suc)
    ultimately show "w \<in> set nl'" using new by simp
  qed
  from sub sup have 1: "set nl' = lev adj b (Suc L)" by blast
  have 2: "dom sp' = reach adj b (Suc L)"
  proof -
    have "reach adj b L \<subseteq> dom sp'"
    proof
      fix w assume w: "w \<in> reach adj b L"
      with keep have "sp' w = sp w" by simp
      moreover from w dom have "w \<in> dom sp" by simp
      ultimately show "w \<in> dom sp'" by auto
    qed
    with new 1 show ?thesis by (auto simp: reach_Suc)
  qed
  have 3: "\<forall>w l ps. sp' w = Some (l, ps) \<longrightarrow> entry_ok adj b w l ps"
  proof (intro allI impI)
    fix w l ps assume s: "sp' w = Some (l, ps)"
    show "entry_ok adj b w l ps"
    proof (cases "w \<in> reach adj b L")
      case True
      with keep s have "sp w = Some (l, ps)" by simp
      with ok show ?thesis by blast
    next
      case False
      with s new have wn: "w \<in> set nl'" by auto
      with ent s have l: "l = Suc L" and ne: "ps \<noteq> []" and es: "\<forall>v \<in> set ps. (v, w) \<in> ?E"
        by auto
      from es E have "\<forall>v \<in> set ps. v \<in> lev adj b L \<and> w \<in> set (adj v)" by auto
      with wn 1 l ne show ?thesis by (simp add: entry_ok_def)
    qed
  qed
  from 1 2 3 show ?thesis by (simp add: bfs_inv_def)
qed

lemma bfs_inv_init: "bfs_inv adj b 0 [b] [b \<mapsto> (0, [])]"
  by (auto simp: bfs_inv_def lev_0 reach_0 entry_ok_def split: if_splits)

lemma bfs_loop_total:
  assumes fin: "finite N" and bN: "b \<in> N" and cl: "\<forall>v \<in> N. set (adj v) \<subseteq> N"
  shows "bfs_inv adj b L nl sp \<Longrightarrow>
           \<exists>final M. bfs_loop adj L nl sp = Some final \<and> bfs_inv adj b M [] final"
proof (induction "card (N - dom sp)" arbitrary: L nl sp rule: less_induct)
  case less
  show ?case
  proof (cases "nl = []")
    case True
    then have "bfs_loop adj L nl sp = Some sp"
      by (subst bfs_loop.simps) simp
    with less.prems True show ?thesis by blast
  next
    case False
    obtain nl' sp' where r: "bfs_level adj (Suc L) nl sp = (nl', sp')"
      by (cases "bfs_level adj (Suc L) nl sp")
    from bfs_level_inv [OF less.prems r] have inv': "bfs_inv adj b (Suc L) nl' sp'" .
    have eq: "bfs_loop adj L nl sp = bfs_loop adj (Suc L) nl' sp'"
      using False r by (subst bfs_loop.simps) simp
    show ?thesis
    proof (cases "nl' = []")
      case True
      then have "bfs_loop adj (Suc L) nl' sp' = Some sp'"
        by (subst bfs_loop.simps) simp
      with eq inv' True show ?thesis by auto
    next
      case False
      then obtain w where w: "w \<in> set nl'" by (cases nl') auto
      with inv' have wl: "w \<in> lev adj b (Suc L)" by (simp add: bfs_inv_def)
      then have wnot: "w \<notin> reach adj b L" by (simp add: lev_Suc)
      from wl lev_subset_closed [OF bN cl, of "Suc L"] have wN: "w \<in> N" by blast
      from less.prems have d: "dom sp = reach adj b L" by (simp add: bfs_inv_def)
      from inv' have d': "dom sp' = reach adj b (Suc L)" by (simp add: bfs_inv_def)
      from d d' have sub: "dom sp \<subseteq> dom sp'" by (auto simp: reach_Suc)
      from wl d' have wd': "w \<in> dom sp'" by (simp add: reach_Suc)
      from wnot d have wd: "w \<notin> dom sp" by simp
      have "N - dom sp' \<subset> N - dom sp"
        using sub wN wd wd' by blast
      with fin have "card (N - dom sp') < card (N - dom sp)"
        by (simp add: psubset_card_mono)
      from less.hyps [OF this inv'] eq show ?thesis by simp
    qed
  qed
qed

lemma predecessor_total:
  assumes fin: "finite N" and bN: "b \<in> N" and cl: "\<forall>v \<in> N. set (neighbors G v) \<subseteq> N"
  shows "\<exists>P. predecessor G b = Some P \<and> pred_ok (neighbors G) b P"
proof -
  let ?adj = "neighbors G"
  from bfs_loop_total [OF fin bN cl bfs_inv_init] obtain final M where
    f: "bfs_loop ?adj 0 [b] [b \<mapsto> (0, [])] = Some final" and inv: "bfs_inv ?adj b M [] final"
    by blast
  let ?P = "\<lambda>n. map_option snd (final n)"
  from f have p: "predecessor G b = Some ?P" by (simp add: predecessor_def)
  from inv have e: "lev ?adj b M = {}" and d: "dom final = reach ?adj b M"
    and ok: "\<forall>w l ps. final w = Some (l, ps) \<longrightarrow> entry_ok ?adj b w l ps"
    by (simp_all add: bfs_inv_def)
  have all: "\<And>w l. w \<in> lev ?adj b l \<Longrightarrow> w \<in> dom final"
  proof -
    fix w l assume w: "w \<in> lev ?adj b l"
    have "l \<le> M"
    proof (rule ccontr)
      assume "\<not> l \<le> M"
      then have "M \<le> l" by simp
      from lev_empty_ge [OF e this] w show False by simp
    qed
    with w d show "w \<in> dom final" by (auto simp: reach_iff)
  qed
  have 1: "\<forall>w. (w \<in> dom ?P) = (\<exists>l. w \<in> lev ?adj b l)"
  proof
    fix w
    show "(w \<in> dom ?P) = (\<exists>l. w \<in> lev ?adj b l)"
    proof
      assume "w \<in> dom ?P"
      then have "w \<in> dom final" by (auto simp: dom_def)
      with d show "\<exists>l. w \<in> lev ?adj b l" by (auto simp: reach_iff)
    next
      assume "\<exists>l. w \<in> lev ?adj b l"
      with all have "w \<in> dom final" by blast
      then show "w \<in> dom ?P" by (auto simp: dom_def)
    qed
  qed
  have 2: "\<forall>w l. w \<in> lev ?adj b l \<longrightarrow>
         (\<exists>ps. ?P w = Some ps \<and>
            (if l = 0 then ps = []
             else ps \<noteq> [] \<and> (\<forall>v \<in> set ps. v \<in> lev ?adj b (l - 1) \<and> w \<in> set (?adj v))))"
  proof (intro allI impI)
    fix w l assume w: "w \<in> lev ?adj b l"
    from all [OF w] obtain l' ps where fw: "final w = Some (l', ps)" by auto
    with ok have eo: "entry_ok ?adj b w l' ps" by blast
    then have "w \<in> lev ?adj b l'" by (simp add: entry_ok_def)
    from lev_disjoint [OF w this] have "l = l'" .
    with eo fw show "\<exists>ps. ?P w = Some ps \<and>
            (if l = 0 then ps = []
             else ps \<noteq> [] \<and> (\<forall>v \<in> set ps. v \<in> lev ?adj b (l - 1) \<and> w \<in> set (?adj v)))"
      by (auto simp: entry_ok_def split: if_splits)
  qed
  from p 1 2 show ?thesis unfolding pred_ok_def by blast
qed

subsection \<open>The loop of all\_shortest\_paths\<close>

lemma asp_loop_exit:
  "asp_loop P b \<lparr>pth = p, pthlength = k, ind = -1, ret = r\<rparr> = Some (Return r)"
  by (subst asp_loop.simps) simp

lemma asp_loop_push:
  assumes "j < length p" and "p ! j = (n, i)" and "P n = Some ps" and "i < length ps" and "n \<noteq> b"
  shows "\<exists>p1. asp_loop P b \<lparr>pth = p, pthlength = length p, ind = int j, ret = r\<rparr> =
               asp_loop P b \<lparr>pth = p1, pthlength = length p1, ind = int (Suc j), ret = r\<rparr> \<and>
             length p \<le> length p1 \<and> Suc j < length p1 \<and> p1 ! Suc j = (ps ! i, 0) \<and>
             take (Suc j) p1 = take (Suc j) p"
proof (cases "Suc j = length p")
  case True
  have g: "py_getitem p (int j) = Return (n, i)"
    using assms(1,2) by (simp add: py_getitem_def)
  have "asp_step P b \<lparr>pth = p, pthlength = length p, ind = int j, ret = r\<rparr> =
          Return \<lparr>pth = p @ [(ps ! i, 0)], pthlength = length (p @ [(ps ! i, 0)]), ind = int (Suc j), ret = r\<rparr>"
    using assms True g by (simp add: asp_step_def Let_def)
  then have "asp_loop P b \<lparr>pth = p, pthlength = length p, ind = int j, ret = r\<rparr> =
               asp_loop P b \<lparr>pth = p @ [(ps ! i, 0)], pthlength = length (p @ [(ps ! i, 0)]), ind = int (Suc j), ret = r\<rparr>"
    by (subst asp_loop.simps) simp
  moreover have "(p @ [(ps ! i, 0)]) ! Suc j = (ps ! i, 0)"
    using True by (simp add: nth_append)
  moreover have "take (Suc j) (p @ [(ps ! i, 0)]) = take (Suc j) p"
    using True by simp
  ultimately show ?thesis using True by (intro exI [of _ "p @ [(ps ! i, 0)]"]) simp
next
  case False
  with assms(1) have lt: "Suc j < length p" by simp
  have g: "py_getitem p (int j) = Return (n, i)"
    using assms(1,2) by (simp add: py_getitem_def)
  have ne: "int j + 1 \<noteq> int (length p)" using False by linarith
  have "asp_step P b \<lparr>pth = p, pthlength = length p, ind = int j, ret = r\<rparr> =
          Return \<lparr>pth = p[Suc j := (ps ! i, 0)], pthlength = length (p[Suc j := (ps ! i, 0)]),
            ind = int (Suc j), ret = r\<rparr>"
    using assms ne g by (simp add: asp_step_def Let_def nat_add_distrib)
  then have "asp_loop P b \<lparr>pth = p, pthlength = length p, ind = int j, ret = r\<rparr> =
               asp_loop P b \<lparr>pth = p[Suc j := (ps ! i, 0)], pthlength = length (p[Suc j := (ps ! i, 0)]),
                 ind = int (Suc j), ret = r\<rparr>"
    by (subst asp_loop.simps) simp
  moreover have "(p[Suc j := (ps ! i, 0)]) ! Suc j = (ps ! i, 0)"
    using lt by simp
  moreover have "take (Suc j) (p[Suc j := (ps ! i, 0)]) = take (Suc j) p"
    by simp
  ultimately show ?thesis using lt by (intro exI [of _ "p[Suc j := (ps ! i, 0)]"]) simp
qed

lemma asp_loop_pop:
  assumes "j < length p" and "p ! j = (n, i)" and "P n = Some ps" and "\<not> i < length ps"
  shows "asp_loop P b \<lparr>pth = p, pthlength = length p, ind = int j, ret = r\<rparr> =
           asp_loop P b
             \<lparr>pth = (if j = 0 then p else p[j - 1 := (fst (p ! (j - 1)), Suc (snd (p ! (j - 1))))]),
              pthlength = length p, ind = int j - 1,
              ret = (if n = b then r @ [map fst (take j p) @ [n]] else r)\<rparr>"
proof -
  have g: "py_getitem p (int j) = Return (n, i)"
    using assms(1,2) by (simp add: py_getitem_def)
  have t: "map fst (take (nat (int j + 1)) p) = map fst (take j p) @ [n]"
    using assms(1,2) by (simp add: nat_add_distrib take_Suc_conv_app_nth)
  have n1: "j \<noteq> 0 \<Longrightarrow> nat (int j - 1) = j - 1" by simp
  have "asp_step P b \<lparr>pth = p, pthlength = length p, ind = int j, ret = r\<rparr> =
          Return \<lparr>pth = (if j = 0 then p else p[j - 1 := (fst (p ! (j - 1)), Suc (snd (p ! (j - 1))))]),
              pthlength = length p, ind = int j - 1,
              ret = (if n = b then r @ [map fst (take j p) @ [n]] else r)\<rparr>"
    using assms g t n1 by (auto simp: asp_step_def Let_def)
  then show ?thesis
    by (subst asp_loop.simps) simp
qed

lemma pred_ok_entry:
  assumes "pred_ok adj b P" and "n \<in> lev adj b l"
  shows "\<exists>ps. P n = Some ps \<and>
            (if l = 0 then ps = []
             else ps \<noteq> [] \<and> (\<forall>v \<in> set ps. v \<in> lev adj b (l - 1) \<and> n \<in> set (adj v)))"
  using assms unfolding pred_ok_def by blast

lemma dfs_paths_frame:
  assumes "pred_ok adj b P" and "n \<in> lev adj b l" and "P n = Some ps"
  shows "dfs_paths P b l n = frame_paths P b l n ps 0"
proof (cases l)
  case 0
  with pred_ok_entry [OF assms(1,2)] assms(3) have "ps = []" by simp
  with 0 show ?thesis by (simp add: frame_paths_def)
next
  case (Suc k)
  with assms(3) show ?thesis by (simp add: frame_paths_def)
qed

lemma asp_frame:
  assumes ok: "pred_ok adj b P"
  shows "n \<in> lev adj b l \<Longrightarrow> P n = Some ps \<Longrightarrow> i \<le> length ps \<Longrightarrow> j < length p \<Longrightarrow>
         p ! j = (n, i) \<Longrightarrow>
         \<exists>p'. asp_loop P b \<lparr>pth = p, pthlength = length p, ind = int j, ret = r\<rparr> =
               asp_loop P b \<lparr>pth = p', pthlength = length p', ind = int j - 1,
                 ret = r @ map (\<lambda>q. map fst (take j p) @ q) (frame_paths P b l n ps i)\<rparr> \<and>
              length p \<le> length p' \<and>
              take j p' = (take j p)[j - 1 := (fst (p ! (j - 1)), Suc (snd (p ! (j - 1))))]"
proof (induction l arbitrary: n ps i j p r rule: less_induct)
  case (less l)
  note outer = less.IH
  from less.prems(1) have nl: "n \<in> lev adj b l" .
  from less.prems(2) have Pn: "P n = Some ps" .
  from pred_ok_entry [OF ok nl] Pn have
    ent: "if l = 0 then ps = [] else ps \<noteq> [] \<and> (\<forall>v \<in> set ps. v \<in> lev adj b (l - 1) \<and> n \<in> set (adj v))"
    by simp
  have nb: "ps \<noteq> [] \<Longrightarrow> n \<noteq> b"
  proof
    assume "ps \<noteq> []" and "n = b"
    then have "n \<in> lev adj b 0" by (simp add: lev_0)
    from lev_disjoint [OF nl this] have "l = 0" .
    with ent \<open>ps \<noteq> []\<close> show False by simp
  qed
  from less.prems(3,4,5) show ?case
  proof (induction "length ps - i" arbitrary: i p r)
    case 0
    then have full: "\<not> i < length ps" by simp
    let ?p' = "if j = 0 then p else p[j - 1 := (fst (p ! (j - 1)), Suc (snd (p ! (j - 1))))]"
    from full have fp: "frame_paths P b l n ps i = (if n = b then [[n]] else [])"
      by (simp add: frame_paths_def)
    from asp_loop_pop [where P = P and n = n and b = b and r = r, OF "0.prems"(2,3) Pn full]
    have "asp_loop P b \<lparr>pth = p, pthlength = length p, ind = int j, ret = r\<rparr> =
            asp_loop P b \<lparr>pth = ?p', pthlength = length ?p', ind = int j - 1,
              ret = r @ map (\<lambda>q. map fst (take j p) @ q) (frame_paths P b l n ps i)\<rparr>"
      by (simp add: fp)
    moreover have "length p \<le> length ?p'" by simp
    moreover have "take j ?p' = (take j p)[j - 1 := (fst (p ! (j - 1)), Suc (snd (p ! (j - 1))))]"
      by (simp add: take_update_swap)
    ultimately show ?case by blast
  next
    case (Suc m)
    then have lt: "i < length ps" by simp
    then have ne: "ps \<noteq> []" by auto
    from nb [OF ne] have nneq: "n \<noteq> b" .
    from ent ne have lpos: "l \<noteq> 0" by (cases "l = 0") simp_all
    let ?c = "ps ! i"
    from ent lpos have "\<forall>v \<in> set ps. v \<in> lev adj b (l - 1)" by simp
    with lt have cl: "?c \<in> lev adj b (l - 1)" by simp
    from pred_ok_entry [OF ok cl] obtain cs where Pc: "P ?c = Some cs" by blast
    from asp_loop_push [where P = P and n = n and b = b and r = r, OF Suc.prems(2,3) Pn lt nneq] obtain p1 where
      e1: "asp_loop P b \<lparr>pth = p, pthlength = length p, ind = int j, ret = r\<rparr> =
             asp_loop P b \<lparr>pth = p1, pthlength = length p1, ind = int (Suc j), ret = r\<rparr>"
      and l1: "length p \<le> length p1" and j1: "Suc j < length p1"
      and c1: "p1 ! Suc j = (?c, 0)" and t1: "take (Suc j) p1 = take (Suc j) p"
      by blast
    from lpos have "l - 1 < l" by simp
    from outer [OF this cl Pc _ j1 c1, of r] obtain p2 where
      e2: "asp_loop P b \<lparr>pth = p1, pthlength = length p1, ind = int (Suc j), ret = r\<rparr> =
             asp_loop P b \<lparr>pth = p2, pthlength = length p2, ind = int (Suc j) - 1,
               ret = r @ map (\<lambda>q. map fst (take (Suc j) p1) @ q) (frame_paths P b (l - 1) ?c cs 0)\<rparr>"
      and l2: "length p1 \<le> length p2"
      and t2: "take (Suc j) p2 = (take (Suc j) p1)[Suc j - 1 := (fst (p1 ! (Suc j - 1)), Suc (snd (p1 ! (Suc j - 1))))]"
      by auto
    from Suc.prems(2) l1 have jp1: "j < length p1" by simp
    from t1 jp1 Suc.prems(2) have p1j: "p1 ! j = p ! j"
      by (metis lessI nth_take)
    from t1 have tj1: "take j p1 = take j p"
      by (metis take_take min.absorb1 le_add2 plus_1_eq_Suc)
    from jp1 l2 have jp2: "j < length p2" by simp
    have "take (Suc j) p2 ! j = (n, Suc i)"
      unfolding t2 using jp1 p1j Suc.prems(3) by simp
    with jp2 have p2j: "p2 ! j = (n, Suc i)" by simp
    have "take j p2 = take j (take (Suc j) p2)" by simp
    also have "\<dots> = take j (take (Suc j) p1)" unfolding t2 by simp
    also have "\<dots> = take j p" using tj1 by simp
    finally have tj2: "take j p2 = take j p" .
    have pre: "map fst (take (Suc j) p1) = map fst (take j p) @ [n]"
      using t1 Suc.prems(2,3) by (simp add: take_Suc_conv_app_nth)
    from Suc.hyps(2) have m: "m = length ps - Suc i" by simp
    from lt have le: "Suc i \<le> length ps" by simp
    let ?r2 = "r @ map (\<lambda>q. map fst (take (Suc j) p1) @ q) (frame_paths P b (l - 1) ?c cs 0)"
    from Suc.hyps(1) [OF m le jp2 p2j, of ?r2] obtain p3 where
      e3: "asp_loop P b \<lparr>pth = p2, pthlength = length p2, ind = int j, ret = ?r2\<rparr> =
             asp_loop P b \<lparr>pth = p3, pthlength = length p3, ind = int j - 1,
               ret = ?r2 @ map (\<lambda>q. map fst (take j p2) @ q) (frame_paths P b l n ps (Suc i))\<rparr>"
      and l3: "length p2 \<le> length p3"
      and t3: "take j p3 = (take j p2)[j - 1 := (fst (p2 ! (j - 1)), Suc (snd (p2 ! (j - 1))))]"
      by blast
    have dc: "dfs_paths P b (l - 1) ?c = frame_paths P b (l - 1) ?c cs 0"
      by (rule dfs_paths_frame [OF ok cl Pc])
    have "drop i ps = ?c # drop (Suc i) ps"
      using lt by (simp add: Cons_nth_drop_Suc)
    then have fr: "frame_paths P b l n ps i =
        map ((#) n) (frame_paths P b (l - 1) ?c cs 0) @ frame_paths P b l n ps (Suc i)"
      using nneq dc by (simp add: frame_paths_def)
    have rets: "?r2 @ map (\<lambda>q. map fst (take j p2) @ q) (frame_paths P b l n ps (Suc i)) =
                r @ map (\<lambda>q. map fst (take j p) @ q) (frame_paths P b l n ps i)"
      unfolding fr pre tj2 by (simp add: comp_def)
    have p2p: "j \<noteq> 0 \<Longrightarrow> p2 ! (j - 1) = p ! (j - 1)"
    proof -
      assume "j \<noteq> 0"
      then have "j - 1 < j" by simp
      then have "take j p2 ! (j - 1) = p2 ! (j - 1)" "take j p ! (j - 1) = p ! (j - 1)"
        by simp_all
      with tj2 show ?thesis by simp
    qed
    have t3': "take j p3 = (take j p)[j - 1 := (fst (p ! (j - 1)), Suc (snd (p ! (j - 1))))]"
    proof (cases "j = 0")
      case True
      then show ?thesis by simp
    next
      case False
      with t3 tj2 p2p show ?thesis by simp
    qed
    have "asp_loop P b \<lparr>pth = p, pthlength = length p, ind = int j, ret = r\<rparr> =
            asp_loop P b \<lparr>pth = p3, pthlength = length p3, ind = int j - 1,
              ret = r @ map (\<lambda>q. map fst (take j p) @ q) (frame_paths P b l n ps i)\<rparr>"
      using e1 e2 e3 rets by simp
    moreover from l1 l2 l3 have "length p \<le> length p3" by simp
    ultimately show ?case using t3' by blast
  qed
qed

subsection \<open>The paths found\<close>

lemma all_shortest_paths_reached:
  assumes ok: "pred_ok (neighbors G) b P" and p: "predecessor G b = Some P"
    and a: "a \<in> lev (neighbors G) b l"
  shows "all_shortest_paths G a b = Some (Return (dfs_paths P b l a))"
proof -
  from pred_ok_entry [OF ok a] obtain ps where Pa: "P a = Some ps" by blast
  have "length ps \<ge> (0::nat)" by simp
  from asp_frame [OF ok a Pa, of 0 0 "[(a, 0)]" "[]"] obtain p' where
    "asp_loop P b \<lparr>pth = [(a, 0)], pthlength = length [(a, 0::nat)], ind = int 0, ret = []\<rparr> =
       asp_loop P b \<lparr>pth = p', pthlength = length p', ind = int 0 - 1,
         ret = [] @ map (\<lambda>q. map fst (take 0 [(a, 0::nat)]) @ q) (frame_paths P b l a ps 0)\<rparr>"
    by auto
  then have "asp_loop P b \<lparr>pth = [(a, 0)], pthlength = 1, ind = 0, ret = []\<rparr> =
       asp_loop P b \<lparr>pth = p', pthlength = length p', ind = -1, ret = frame_paths P b l a ps 0\<rparr>"
    by simp
  also have "\<dots> = Some (Return (frame_paths P b l a ps 0))"
    by (rule asp_loop_exit)
  finally have "asp_loop P b \<lparr>pth = [(a, 0)], pthlength = 1, ind = 0, ret = []\<rparr> =
      Some (Return (dfs_paths P b l a))"
    using dfs_paths_frame [OF ok a Pa] by simp
  with p Pa show ?thesis by (simp add: all_shortest_paths_def)
qed

lemma all_shortest_paths_unreached:
  assumes ok: "pred_ok (neighbors G) b P" and p: "predecessor G b = Some P"
    and a: "\<forall>l. a \<notin> lev (neighbors G) b l"
  shows "all_shortest_paths G a b = Some (Return [])"
proof -
  from ok a have "a \<notin> dom P" unfolding pred_ok_def by blast
  then have "P a = None" by auto
  with p show ?thesis by (simp add: all_shortest_paths_def)
qed

lemma dfs_paths_props:
  assumes ok: "pred_ok adj b P"
  shows "n \<in> lev adj b l \<Longrightarrow>
           dfs_paths P b l n \<noteq> [] \<and> (\<forall>q \<in> set (dfs_paths P b l n). length q = Suc l \<and> hd q = n)"
proof (induction l arbitrary: n)
  case 0
  then show ?case by (simp add: lev_0)
next
  case (Suc l)
  from pred_ok_entry [OF ok Suc.prems] obtain ps where
    Pn: "P n = Some ps" and ne: "ps \<noteq> []" and pl: "\<forall>v \<in> set ps. v \<in> lev adj b l"
    by auto
  have nb: "n \<noteq> b"
  proof
    assume "n = b"
    then have "n \<in> lev adj b 0" by (simp add: lev_0)
    from lev_disjoint [OF Suc.prems this] show False by simp
  qed
  from nb Pn have d: "dfs_paths P b (Suc l) n = concat (map (\<lambda>p. map ((#) n) (dfs_paths P b l p)) ps)"
    by simp
  from ne obtain c cs where ps: "ps = c # cs" by (cases ps) auto
  with pl have "c \<in> lev adj b l" by simp
  from Suc.IH [OF this] have "dfs_paths P b l c \<noteq> []" by simp
  with d ps have 1: "dfs_paths P b (Suc l) n \<noteq> []" by simp
  have 2: "\<forall>q \<in> set (dfs_paths P b (Suc l) n). length q = Suc (Suc l) \<and> hd q = n"
  proof
    fix q assume "q \<in> set (dfs_paths P b (Suc l) n)"
    with d obtain p q' where "p \<in> set ps" "q' \<in> set (dfs_paths P b l p)" "q = n # q'"
      by auto
    with pl Suc.IH [of p] show "length q = Suc (Suc l) \<and> hd q = n" by simp
  qed
  from 1 2 show ?case by simp
qed

lemma dfs_paths_first:
  assumes ok: "pred_ok adj b P" and n: "n \<in> lev adj b (Suc l)" and Pn: "P n = Some ps"
  shows "second_node (hd (dfs_paths P b (Suc l) n)) = hd ps \<and> hd ps \<in> lev adj b l \<and>
         n \<in> set (adj (hd ps))"
proof -
  from pred_ok_entry [OF ok n] Pn have ne: "ps \<noteq> []"
    and pl: "\<forall>v \<in> set ps. v \<in> lev adj b l \<and> n \<in> set (adj v)"
    by auto
  have nb: "n \<noteq> b"
  proof
    assume "n = b"
    then have "n \<in> lev adj b 0" by (simp add: lev_0)
    from lev_disjoint [OF n this] show False by simp
  qed
  from ne obtain c cs where ps: "ps = c # cs" by (cases ps) auto
  with pl have c: "c \<in> lev adj b l" "n \<in> set (adj c)" by simp_all
  from dfs_paths_props [OF ok c(1)] obtain q qs where
    dq: "dfs_paths P b l c = q # qs" and "hd q = c" and "length q = Suc l"
    by (cases "dfs_paths P b l c") auto
  then have q1: "q \<noteq> []" by auto
  from nb Pn ps dq have "hd (dfs_paths P b (Suc l) n) = n # q" by simp
  then have "second_node (hd (dfs_paths P b (Suc l) n)) = hd q"
    using q1 by (simp add: second_node_def hd_conv_nth)
  with \<open>hd q = c\<close> ps c show ?thesis by simp
qed

subsection \<open>The table of a router\<close>

lemma add_routes_total:
  "\<forall>route \<in> set routes. 2 \<le> length route \<Longrightarrow>
     add_routes routes (group_by_first_hop prev) = Return (group_by_first_hop (prev @ routes))"
proof (induction routes arbitrary: prev)
  case Nil
  then show ?case by simp
next
  case (Cons route routes)
  then have "2 \<le> length route" by simp
  from add_route_group [OF this, of prev] Cons.IH [of "prev @ [route]"] Cons.prems
  show ?case by simp
qed

lemma add_routes_total_Nil:
  assumes "\<forall>route \<in> set routes. 2 \<le> length route"
  shows "add_routes routes [] = Return (group_by_first_hop routes)"
proof -
  have "group_by_first_hop [] = []"
    by (simp add: group_by_first_hop_def first_occurrences_def)
  with add_routes_total [OF assms, of "[]"] show ?thesis by simp
qed

lemma update_routes_loop_total:
  assumes "\<forall>d \<in> set ds. d \<noteq> self \<longrightarrow>
             (\<exists>routes. all_shortest_paths G self d = Some (Return routes) \<and>
                (\<forall>route \<in> set routes. 2 \<le> length route))"
  shows "\<exists>ri. update_routes_loop G self ds ri0 = Some (Return ri)"
  using assms
proof (induction ds arbitrary: ri0)
  case Nil
  then show ?case by simp
next
  case (Cons d ds)
  show ?case
  proof (cases "d = self")
    case True
    with Cons.IH [of ri0] Cons.prems show ?thesis by simp
  next
    case False
    with Cons.prems obtain routes where
      a: "all_shortest_paths G self d = Some (Return routes)"
      and l: "\<forall>route \<in> set routes. 2 \<le> length route"
      by auto
    from l have "\<forall>route \<in> set (map (map (router_address G)) routes). 2 \<le> length route"
      by simp
    from add_routes_total_Nil [OF this]
    have ar: "add_routes (map (map (router_address G)) routes) [] =
                Return (group_by_first_hop (map (map (router_address G)) routes))" .
    from Cons.prems have "\<forall>d \<in> set ds. d \<noteq> self \<longrightarrow>
             (\<exists>routes. all_shortest_paths G self d = Some (Return routes) \<and>
                (\<forall>route \<in> set routes. 2 \<le> length route))" by simp
    from Cons.IH [OF this, of "ri0(d \<mapsto> group_by_first_hop (map (map (router_address G)) routes))"]
    obtain ri where
      "update_routes_loop G self ds
         (ri0(d \<mapsto> group_by_first_hop (map (map (router_address G)) routes))) = Some (Return ri)"
      by blast
    with False a ar have "update_routes_loop G self (d # ds) ri0 = Some (Return ri)"
      by (simp del: fun_upd_apply)
    then show ?thesis by blast
  qed
qed

lemma hd_first_occurrences: "xs \<noteq> [] \<Longrightarrow> hd (first_occurrences xs) = hd xs"
proof (induction xs rule: rev_induct)
  case Nil
  then show ?case by simp
next
  case (snoc x xs)
  show ?case
  proof (cases "xs = []")
    case True
    then show ?thesis by (simp add: first_occurrences_def)
  next
    case False
    then have "first_occurrences xs \<noteq> []"
      using set_first_occurrences [of xs] by (metis set_empty)
    with snoc.IH [OF False] False show ?thesis
      by (simp add: first_occurrences_snoc)
  qed
qed

lemma group_first_entry:
  assumes "routes \<noteq> []"
  shows "\<exists>entry rest. group_by_first_hop routes = entry # rest \<and>
           nexthop entry = second_node (hd routes)"
proof -
  let ?hs = "first_occurrences (map second_node routes)"
  from assms have m: "map second_node routes \<noteq> []" by simp
  then have "?hs \<noteq> []"
    using set_first_occurrences [of "map second_node routes"] by (metis set_empty)
  then obtain h hs where hs: "?hs = h # hs" by (cases ?hs) auto
  from hd_first_occurrences [OF m] hs assms have "h = second_node (hd routes)"
    by (simp add: hd_map)
  with hs show ?thesis by (simp add: group_by_first_hop_def)
qed

subsection \<open>The preferred next hop\<close>

lemma wf_noc_closed: "wf_noc G \<Longrightarrow> \<forall>v \<in> set (node_list G). set (neighbors G v) \<subseteq> set (node_list G)"
  unfolding wf_noc_def by blast

lemma wf_noc_sym:
  "wf_noc G \<Longrightarrow> \<forall>v \<in> set (node_list G). \<forall>w \<in> set (neighbors G v).
     w \<in> set (node_list G) \<and> v \<in> set (neighbors G w)"
  unfolding wf_noc_def by blast

lemma wf_noc_address: "wf_noc G \<Longrightarrow> v \<in> set (node_list G) \<Longrightarrow> router_address G v = v"
  unfolding wf_noc_def by blast

lemma wf_noc_predecessor:
  assumes "wf_noc G" and "b \<in> set (node_list G)"
  shows "\<exists>P. predecessor G b = Some P \<and> pred_ok (neighbors G) b P"
  by (rule predecessor_total [OF finite_set assms(2) wf_noc_closed [OF assms(1)]])

lemma wf_noc_lev_nodes:
  assumes "wf_noc G" and "b \<in> set (node_list G)" and "v \<in> lev (neighbors G) b l"
  shows "v \<in> set (node_list G)"
  using lev_subset_closed [OF assms(2) wf_noc_closed [OF assms(1)], of l] assms(3) by blast

lemma wf_noc_all_shortest_paths:
  assumes wf: "wf_noc G" and b: "b \<in> set (node_list G)" and ab: "a \<noteq> b"
  shows "\<exists>routes. all_shortest_paths G a b = Some (Return routes) \<and>
           (\<forall>route \<in> set routes. 2 \<le> length route)"
proof -
  from wf_noc_predecessor [OF wf b] obtain P where
    p: "predecessor G b = Some P" and ok: "pred_ok (neighbors G) b P" by blast
  show ?thesis
  proof (cases "\<exists>l. a \<in> lev (neighbors G) b l")
    case True
    then obtain l where l: "a \<in> lev (neighbors G) b l" by blast
    from all_shortest_paths_reached [OF ok p l]
    have r: "all_shortest_paths G a b = Some (Return (dfs_paths P b l a))" .
    have "l \<noteq> 0"
    proof
      assume "l = 0"
      with l ab show False by (simp add: lev_0)
    qed
    with dfs_paths_props [OF ok l] have "\<forall>route \<in> set (dfs_paths P b l a). 2 \<le> length route"
      by auto
    with r show ?thesis by blast
  next
    case False
    then have "\<forall>l. a \<notin> lev (neighbors G) b l" by blast
    from all_shortest_paths_unreached [OF ok p this] show ?thesis by simp
  qed
qed

lemma wf_noc_update_routes_info:
  assumes wf: "wf_noc G"
  shows "\<exists>ri. update_routes_info G self ri0 = Some (Return ri)"
proof -
  have "\<forall>d \<in> set (router_list G). d \<noteq> self \<longrightarrow>
          (\<exists>routes. all_shortest_paths G self d = Some (Return routes) \<and>
             (\<forall>route \<in> set routes. 2 \<le> length route))"
    using wf_noc_all_shortest_paths [OF wf] by (auto simp: router_list_def)
  from update_routes_loop_total [OF this, of Map.empty] show ?thesis
    by (simp add: update_routes_info_def)
qed

lemma find_by_address:
  assumes "h \<in> set xs" and "\<forall>x \<in> set xs. addr x = x"
  shows "find (\<lambda>r. addr r = h) xs = Some h"
  using assms by (induction xs) auto

lemma wf_noc_get_router:
  assumes "wf_noc G" and "h \<in> set (node_list G)"
  shows "get_router_by_address G h = Some h"
  unfolding get_router_by_address_def router_list_def
  using find_by_address [OF assms(2), of "router_address G"] wf_noc_address [OF assms(1)]
  by blast

lemma preferred_next_level:
  assumes wf: "wf_noc G" and b: "b \<in> set (node_list G)"
    and a: "a \<in> lev (neighbors G) b (Suc l)"
  shows "\<exists>h. preferred_next G a b = Some h \<and> h \<in> lev (neighbors G) b l \<and>
           get_router_by_address G h = Some h"
proof -
  let ?adj = "neighbors G"
  from wf_noc_predecessor [OF wf b] obtain P where
    p: "predecessor G b = Some P" and ok: "pred_ok ?adj b P" by blast
  from pred_ok_entry [OF ok a] obtain ps where Pa: "P a = Some ps" by blast
  have ab: "b \<noteq> a"
  proof
    assume "b = a"
    then have "a \<in> lev ?adj b 0" by (simp add: lev_0)
    from lev_disjoint [OF a this] show False by simp
  qed
  from wf_noc_update_routes_info [OF wf, of a Map.empty] obtain ri where
    u: "update_routes_info G a Map.empty = Some (Return ri)" by blast
  then have "update_routes_loop G a (router_list G) Map.empty = Some (Return ri)"
    by (simp add: update_routes_info_def)
  from update_routes_loop_entries [OF this] b ab obtain routes where
    r: "all_shortest_paths G a b = Some (Return routes)"
    and e: "ri b = Some (group_by_first_hop (map (map (router_address G)) routes))"
    by (auto simp: router_list_def)
  from all_shortest_paths_reached [OF ok p a] r have routes: "routes = dfs_paths P b (Suc l) a"
    by simp
  from dfs_paths_props [OF ok a] routes have ne: "routes \<noteq> []"
    and len: "\<forall>q \<in> set routes. length q = Suc (Suc l)" by simp_all
  from dfs_paths_first [OF ok a Pa] routes have
    sn: "second_node (hd routes) = hd ps" and hl: "hd ps \<in> lev ?adj b l" by simp_all
  from ne have "map (map (router_address G)) routes \<noteq> []" by simp
  from group_first_entry [OF this] obtain entry rest where
    g: "group_by_first_hop (map (map (router_address G)) routes) = entry # rest"
    and n: "nexthop entry = second_node (hd (map (map (router_address G)) routes))"
    by blast
  from ne len have "length (hd routes) = Suc (Suc l)" by simp
  then have "second_node (map (router_address G) (hd routes)) = router_address G (second_node (hd routes))"
    by (simp add: second_node_def)
  with n ne sn have "nexthop entry = router_address G (hd ps)"
    by (simp add: hd_map)
  with wf_noc_address [OF wf wf_noc_lev_nodes [OF wf b hl]] have nh: "nexthop entry = hd ps"
    by simp
  from u e g nh have "preferred_next G a b = Some (hd ps)"
    by (simp add: preferred_next_def)
  with hl wf_noc_get_router [OF wf wf_noc_lev_nodes [OF wf b hl]] show ?thesis by blast
qed

lemma follow_level:
  assumes wf: "wf_noc G" and b: "b \<in> set (node_list G)"
  shows "a \<in> lev (neighbors G) b l \<Longrightarrow>
           follow G b l a = Some b \<and> (\<forall>k < l. follow G b k a \<noteq> Some b)"
proof (induction l arbitrary: a)
  case 0
  then show ?case by (simp add: lev_0)
next
  case (Suc l)
  from preferred_next_level [OF wf b Suc.prems] obtain h where
    h: "preferred_next G a b = Some h" "h \<in> lev (neighbors G) b l"
      "get_router_by_address G h = Some h" by blast
  from Suc.IH [OF h(2)] have ih1: "follow G b l h = Some b"
    and ih2: "\<forall>k < l. follow G b k h \<noteq> Some b" by simp_all
  have ab: "a \<noteq> b"
  proof
    assume "a = b"
    then have "a \<in> lev (neighbors G) b 0" by (simp add: lev_0)
    from lev_disjoint [OF Suc.prems this] show False by simp
  qed
  have 1: "follow G b (Suc l) a = Some b" using h ih1 by simp
  have 2: "\<forall>k < Suc l. follow G b k a \<noteq> Some b"
  proof (intro allI impI)
    fix k assume k: "k < Suc l"
    show "follow G b k a \<noteq> Some b"
    proof (cases k)
      case 0
      with ab show ?thesis by simp
    next
      case (Suc k')
      with k have "k' < l" by simp
      with ih2 have "follow G b k' h \<noteq> Some b" by simp
      with Suc h show ?thesis by simp
    qed
  qed
  from 1 2 show ?case by simp
qed

subsection \<open>The chain of preferred next hops\<close>

lemma walk_hd_last_rev:
  assumes "xs \<noteq> []"
  shows "hd (rev xs) = last xs" and "last (rev xs) = hd xs"
  using assms by (simp_all add: hd_rev last_rev)

lemma wf_noc_walk_rev:
  assumes wf: "wf_noc G" and a: "a \<in> set (node_list G)"
  shows "(\<exists>xs. walk (neighbors G) xs \<and> hd xs = a \<and> last xs = b \<and> length xs = Suc n) \<Longrightarrow>
         (\<exists>ys. walk (neighbors G) ys \<and> hd ys = b \<and> last ys = a \<and> length ys = Suc n)"
proof -
  assume "\<exists>xs. walk (neighbors G) xs \<and> hd xs = a \<and> last xs = b \<and> length xs = Suc n"
  then obtain xs where xs: "walk (neighbors G) xs" "hd xs = a" "last xs = b" "length xs = Suc n"
    by blast
  from xs(4) have ne: "xs \<noteq> []" by auto
  from xs(2) a have "hd xs \<in> set (node_list G)" by simp
  from walk_rev [OF wf_noc_sym [OF wf] xs(1) this] have "walk (neighbors G) (rev xs)" .
  moreover from walk_hd_last_rev [OF ne] xs(2,3) have "hd (rev xs) = b" "last (rev xs) = a"
    by simp_all
  moreover from xs(4) have "length (rev xs) = Suc n" by simp
  ultimately show ?thesis by blast
qed

lemma wf_noc_hop_distance:
  assumes wf: "wf_noc G" and a: "a \<in> set (node_list G)" and b: "b \<in> set (node_list G)"
    and l: "a \<in> lev (neighbors G) b l"
  shows "hop_distance G a b = l"
proof -
  have "\<And>n. (\<exists>xs. walk (neighbors G) xs \<and> hd xs = a \<and> last xs = b \<and> length xs = Suc n) =
             (\<exists>ys. walk (neighbors G) ys \<and> hd ys = b \<and> last ys = a \<and> length ys = Suc n)"
    using wf_noc_walk_rev [OF wf a, of b] wf_noc_walk_rev [OF wf b, of a] by blast
  then have "hop_distance G a b =
      (LEAST n. \<exists>ys. walk (neighbors G) ys \<and> hd ys = b \<and> last ys = a \<and> length ys = Suc n)"
    by (simp add: hop_distance_def)
  with lev_least [OF l] show ?thesis by simp
qed

text \<open>
  C1: in a graph as the NoC container builds it, for any two routers \<open>a\<close> and \<open>b\<close> joined by
  a walk, following the preferred next hop towards \<open>b\<close> from \<open>a\<close>, router by router, reaches
  \<open>b\<close> after exactly \<open>hop_distance G a b\<close> hops, the shortest-path hop distance, and not
  before.
\<close>

theorem preferred_chain_shortest:
  assumes "wf_noc G" and "a \<in> set (node_list G)" and "b \<in> set (node_list G)"
    and "\<exists>xs. walk (neighbors G) xs \<and> hd xs = a \<and> last xs = b"
  shows "follow G b (hop_distance G a b) a = Some b \<and>
         (\<forall>k < hop_distance G a b. follow G b k a \<noteq> Some b)"
proof -
  from assms(4) obtain xs where xs: "walk (neighbors G) xs" "hd xs = a" "last xs = b" by blast
  then obtain n where "length xs = Suc n" by (cases xs) auto
  with xs have "\<exists>xs. walk (neighbors G) xs \<and> hd xs = a \<and> last xs = b \<and> length xs = Suc n"
    by blast
  from wf_noc_walk_rev [OF assms(1,2) this] obtain ys where
    ys: "walk (neighbors G) ys" "hd ys = b" "last ys = a" by blast
  from walk_level [OF ys(1,2)] ys(3) obtain l where l: "a \<in> lev (neighbors G) b l" by auto
  from wf_noc_hop_distance [OF assms(1,2,3) l] have d: "hop_distance G a b = l" .
  from follow_level [OF assms(1,3) l] show ?thesis unfolding d .
qed

lemma grid_wf: "wf_noc grid"
  by (simp add: wf_noc_def grid_def)

lemma grid_walk: "\<exists>xs. walk (neighbors grid) xs \<and> hd xs = 0 \<and> last xs = 5"
proof -
  have "walk (neighbors grid) [0, 3, 4, 5] \<and> hd [0, 3, 4, 5 :: int] = 0 \<and> last [0, 3, 4, 5 :: int] = 5"
    by (simp add: grid_def)
  then show ?thesis by blast
qed

lemma grid_follow: "map (\<lambda>k. follow grid 5 k 0) [0, 1, 2, 3] = [Some 0, Some 3, Some 4, Some 5]"
  by code_simp

theorem preferred_chain_shortest_witness:
  "follow grid 5 (hop_distance grid 0 5) 0 = Some 5 \<and> hop_distance grid 0 5 = 3"
proof -
  have n: "(0::int) \<in> set (node_list grid)" "(5::int) \<in> set (node_list grid)"
    by (simp_all add: grid_def)
  from preferred_chain_shortest [OF grid_wf n grid_walk]
  have f: "follow grid 5 (hop_distance grid 0 5) 0 = Some 5"
    and m: "\<forall>k < hop_distance grid 0 5. follow grid 5 k 0 \<noteq> Some 5"
    by simp_all
  from grid_follow have e: "follow grid 5 0 0 = Some 0" "follow grid 5 1 0 = Some 3"
    "follow grid 5 2 0 = Some 4" "follow grid 5 3 0 = Some 5"
    by (simp_all only: list.map list.inject)
  have le: "hop_distance grid 0 5 \<le> 3"
  proof (rule ccontr)
    assume "\<not> hop_distance grid 0 5 \<le> 3"
    then have "3 < hop_distance grid 0 5" by simp
    with m e(4) show False by blast
  qed
  have n0: "hop_distance grid 0 5 \<noteq> 0"
  proof
    assume h: "hop_distance grid 0 5 = 0"
    from f have "follow grid 5 0 0 = Some 5" unfolding h .
    with e(1) have "Some (0::int) = Some 5" by (simp only:)
    then show False by simp
  qed
  have n1: "hop_distance grid 0 5 \<noteq> 1"
  proof
    assume h: "hop_distance grid 0 5 = 1"
    from f have "follow grid 5 1 0 = Some 5" unfolding h .
    with e(2) have "Some (3::int) = Some 5" by (simp only:)
    then show False by simp
  qed
  have n2: "hop_distance grid 0 5 \<noteq> 2"
  proof
    assume h: "hop_distance grid 0 5 = 2"
    from f have "follow grid 5 2 0 = Some 5" unfolding h .
    with e(3) have "Some (4::int) = Some 5" by (simp only:)
    then show False by simp
  qed
  from le n0 n1 n2 have "hop_distance grid 0 5 = 3" by linarith
  with f show ?thesis by simp
qed

subsection \<open>The self-route of the TLM model\<close>




















end
